theory Spec2Isabelle
  imports Complex_Main "HOL-Library.Extended_Nat" "HOL-Library.Monad_Syntax"
    "HOL-Library.List_Lexorder" "HOL-Library.Multiset"
begin

section \<open>The quadtree of quadtree.c\<close>

text \<open>
  A shallow embedding of \<^verbatim>\<open>src/quadtree.c\<close>: the point buffer with its chunked
  reallocation (\<^verbatim>\<open>quadtree_add\<close>), the recursive refinement (\<^verbatim>\<open>quadtree_refine\<close>),
  the leaf traversal (\<^verbatim>\<open>quadtree_apply_leaves\<close>) and the sampling loop of \<^verbatim>\<open>main\<close>.
  \<^item> A function that changes a node returns the changed node; the allocator is a state
    that is passed along.
  \<^item> A call ends in one of three ways: it returns (\<open>Inr\<close>), it ends the program by
    \<^verbatim>\<open>exit(EXIT_FAILURE)\<close> after a failed allocation, or it runs into undefined behaviour
    (a read or write outside a block, a read of an unwritten cell, an \<^verbatim>\<open>int\<close> out of
    range); the last two are the values \<open>Inl Exit_failure\<close> and
    \<open>Inl Undefined_behaviour\<close>. The refinement may also run forever.
  \<^item> The arithmetic of \<^verbatim>\<open>double\<close> is a parameter. What is proved of the counts, the
    order and the shape of the tree holds for every arithmetic; what is proved of boxes
    and of the driver's indices is proved for exact arithmetic and says so.
\<close>

subsection \<open>Constants\<close>

text \<open>The \<^verbatim>\<open>#define\<close>s of lines 10-13. \<open>INT_MAX\<close> is the largest \<^verbatim>\<open>int\<close> (32 bits).\<close>

definition WIDTH :: int where "WIDTH = 20"
definition HEIGHT :: int where "HEIGHT = 20"
definition N :: nat where "N = 10"
definition THRESH :: real where "THRESH = 1.0"
definition INT_MAX :: nat where "INT_MAX = 2147483647"

subsection \<open>The arithmetic of \<^verbatim>\<open>double\<close>\<close>

text \<open>
  The type \<^verbatim>\<open>double\<close> is a type parameter \<open>'d\<close>, and the operations the program applies
  to it are the fields of a record that every function takes as its first argument; nothing
  is assumed about them. A theorem stated for every \<open>F\<close> therefore holds whatever the
  rounding, and whatever comparisons with a NaN answer. \<open>fp_lit\<close> reads a decimal literal
  of the program text, \<open>fp_of_int\<close> converts an \<^verbatim>\<open>int\<close>, and \<open>fp_to_int\<close> is the
  conversion to \<^verbatim>\<open>int\<close>, \<open>None\<close> where C leaves it undefined.
\<close>

record 'd fpu =
  fp_add :: "'d \<Rightarrow> 'd \<Rightarrow> 'd"
  fp_sub :: "'d \<Rightarrow> 'd \<Rightarrow> 'd"
  fp_mul :: "'d \<Rightarrow> 'd \<Rightarrow> 'd"
  fp_div :: "'d \<Rightarrow> 'd \<Rightarrow> 'd"
  fp_lt :: "'d \<Rightarrow> 'd \<Rightarrow> bool"
  fp_gt :: "'d \<Rightarrow> 'd \<Rightarrow> bool"
  fp_ge :: "'d \<Rightarrow> 'd \<Rightarrow> bool"
  fp_of_int :: "int \<Rightarrow> 'd"
  fp_lit :: "real \<Rightarrow> 'd"
  fp_to_int :: "'d \<Rightarrow> int option"

text \<open>
  Exact arithmetic: the operations on the reals, without rounding. The conversion to
  \<^verbatim>\<open>int\<close> truncates towards zero and is undefined outside the range of \<^verbatim>\<open>int\<close>.
\<close>

definition exact :: "real fpu" where
  "exact = \<lparr>
     fp_add = (\<lambda>a b. a + b),
     fp_sub = (\<lambda>a b. a - b),
     fp_mul = (\<lambda>a b. a * b),
     fp_div = (\<lambda>a b. a / b),
     fp_lt = (\<lambda>a b. a < b),
     fp_gt = (\<lambda>a b. a > b),
     fp_ge = (\<lambda>a b. a \<ge> b),
     fp_of_int = (\<lambda>i. real_of_int i),
     fp_lit = (\<lambda>r. r),
     fp_to_int = (\<lambda>r. let t = (if r \<ge> 0 then \<lfloor>r\<rfloor> else \<lceil>r\<rceil>)
                        in if - 2147483648 \<le> t \<and> t \<le> 2147483647 then Some t else None) \<rparr>"

subsection \<open>Data\<close>

text \<open>
  \<^verbatim>\<open>double2\<close> (lines 27-31) and \<^verbatim>\<open>struct quadtree\<close> (lines 80-89). The fields keep their
  names behind a prefix (\<open>p_\<close> for the point, \<open>q_\<close> for the node).
  \<^item> \<open>q_child\<close> is the pointer \<^verbatim>\<open>child\<close>: \<open>None\<close> is \<^verbatim>\<open>NULL\<close>, \<open>Some\<close> the block of four
    nodes that \<^verbatim>\<open>malloc(4*sizeof(quadtree))\<close> returned.
  \<^item> \<open>q_points\<close> is the pointer \<^verbatim>\<open>points\<close>: \<open>None\<close> is \<^verbatim>\<open>NULL\<close>, \<open>Some cells\<close> the
    allocated block, one list element per \<^verbatim>\<open>double2\<close> of capacity; a cell that was
    never written is \<open>None\<close>.
  \<^item> \<open>q_size\<close> is the \<^verbatim>\<open>size_t size\<close>, a natural number: the block of \<open>size\<close> points
    of 16 bytes each exhausts the address space long before \<^verbatim>\<open>size_t\<close> wraps.
\<close>

datatype error = Exit_failure | Undefined_behaviour

record 'd double2 =
  p_x :: 'd
  p_y :: 'd

datatype 'a quad = Quad 'a 'a 'a 'a

text \<open>\<^verbatim>\<open>a[k]\<close> and \<^verbatim>\<open>a[k] = v\<close> on a block of four; the program only uses \<open>k < 4\<close>.\<close>

fun quad_nth :: "'a quad \<Rightarrow> nat \<Rightarrow> 'a" where
  "quad_nth (Quad a b c d) k =
     (if k = 0 then a else if k = 1 then b else if k = 2 then c else d)"

fun quad_upd :: "'a quad \<Rightarrow> nat \<Rightarrow> 'a \<Rightarrow> 'a quad" where
  "quad_upd (Quad a b c d) k v =
     (if k = 0 then Quad v b c d else if k = 1 then Quad a v c d
      else if k = 2 then Quad a b v d else Quad a b c v)"

datatype 'd quadtree = Quadtree
  (q_x: 'd) (q_y: 'd) (q_w: 'd) (q_h: 'd)
  (q_child: "'d quadtree quad option")
  (q_size: nat)
  (q_points: "'d double2 option list option")

subsection \<open>The allocator\<close>

text \<open>
  \<^verbatim>\<open>malloc\<close> and \<^verbatim>\<open>realloc\<close> may fail, and the program then calls
  \<^verbatim>\<open>exit(EXIT_FAILURE)\<close>. Since no run continues after a failed request, an allocator is
  described by the number of requests it satisfies before the first failure: a \<open>heap\<close> is
  that number, \<open>\<infinity>\<close> for an allocator that never fails. Each request consumes one.
\<close>

type_synonym heap = enat

definition malloc :: "heap \<Rightarrow> heap option" where
  "malloc H = (if H = 0 then None else Some (H - 1))"

text \<open>
  \<^verbatim>\<open>realloc(ptr, n * sizeof(double2))\<close>: a block of \<open>n\<close> cells that keeps the old
  contents up to the smaller of the two sizes; the other cells are unwritten.
\<close>

definition realloc :: "'a option list option \<Rightarrow> nat \<Rightarrow> heap \<Rightarrow> ('a option list \<times> heap) option" where
  "realloc ptr n H =
     (case malloc H of
        None \<Rightarrow> None
      | Some H' \<Rightarrow>
          Some (case ptr of
                  None \<Rightarrow> replicate n None
                | Some cells \<Rightarrow> take n cells @ replicate (n - length cells) None, H'))"

subsection \<open>\<^verbatim>\<open>quadtree_add\<close> (lines 93-111)\<close>

text \<open>
  A write through \<^verbatim>\<open>NULL\<close> or past the end of the block is undefined behaviour in C and
  an error value here.
\<close>

definition quadtree_add :: "'d quadtree \<Rightarrow> 'd double2 \<Rightarrow> heap \<Rightarrow> error + 'd quadtree \<times> heap" where
  "quadtree_add q p H =
    (case (if q_size q mod N = 0
           then (case realloc (q_points q) (q_size q + N) H of
                   None \<Rightarrow> Inl Exit_failure
                 | Some (tmp, H') \<Rightarrow> Inr (Some tmp, H'))
           else Inr (q_points q, H)) of
       Inl e \<Rightarrow> Inl e
     | Inr (pts, H') \<Rightarrow>
        (case pts of
           None \<Rightarrow> Inl Undefined_behaviour
         | Some cells \<Rightarrow>
             if q_size q < length cells
             then Inr (Quadtree (q_x q) (q_y q) (q_w q) (q_h q) (q_child q) (q_size q + 1)
                        (Some (cells[q_size q := Some \<lparr>p_x = p_x p, p_y = p_y p\<rparr>])), H')
             else Inl Undefined_behaviour))"

subsection \<open>\<^verbatim>\<open>quadtree_refine\<close> (lines 114-163)\<close>

text \<open>The body of the initialisation loop, lines 134-140, for the child \<open>(i, j)\<close>.\<close>

definition child_init :: "'d fpu \<Rightarrow> 'd quadtree \<Rightarrow> int \<Rightarrow> int \<Rightarrow> 'd quadtree" where
  "child_init F q i j = Quadtree
     (fp_add F (q_x q) (fp_mul F (fp_mul F (fp_of_int F (2 * i - 1)) (fp_lit F 0.25)) (q_w q)))
     (fp_add F (q_y q) (fp_mul F (fp_mul F (fp_of_int F (2 * j - 1)) (fp_lit F 0.25)) (q_h q)))
     (fp_mul F (fp_lit F 0.5) (q_w q))
     (fp_mul F (fp_lit F 0.5) (q_h q))
     None 0 None"

text \<open>The two loops of lines 131-141, run: the child \<open>(i, j)\<close> is stored at \<open>j*2 + i\<close>.\<close>

definition children_init :: "'d fpu \<Rightarrow> 'd quadtree \<Rightarrow> 'd quadtree quad" where
  "children_init F q =
     Quad (child_init F q 0 0) (child_init F q 1 0) (child_init F q 0 1) (child_init F q 1 1)"

text \<open>Lines 147, 148 and the index of line 151.\<close>

definition quadrant :: "'d fpu \<Rightarrow> 'd quadtree \<Rightarrow> 'd double2 \<Rightarrow> nat" where
  "quadrant F q p =
     (let i = (if fp_gt F (p_x p) (q_x q) then 1 else 0);
          j = (if fp_gt F (p_y p) (q_y q) then 1 else 0)
      in j * 2 + i)"

text \<open>
  The loop of lines 144-152 from index \<open>k\<close> on. It changes the four children only, so
  they are passed and returned beside the node \<open>q\<close>, whose own fields the loop reads.
  Reading outside the block or an unwritten cell is undefined behaviour, and so is
  \<^verbatim>\<open>++k\<close> at \<^verbatim>\<open>INT_MAX\<close>.
\<close>

function sort_points ::
  "'d fpu \<Rightarrow> 'd quadtree \<Rightarrow> nat \<Rightarrow> 'd quadtree quad \<Rightarrow> heap \<Rightarrow> error + 'd quadtree quad \<times> heap" where
  "sort_points F q k cs H =
    (if k < q_size q then
       (case q_points q of
          None \<Rightarrow> Inl Undefined_behaviour
        | Some cells \<Rightarrow>
           (if k < length cells then
             (case cells ! k of
                None \<Rightarrow> Inl Undefined_behaviour
              | Some pk \<Rightarrow>
                 (case quadtree_add (quad_nth cs (quadrant F q pk)) pk H of
                    Inl e \<Rightarrow> Inl e
                  | Inr (c, H') \<Rightarrow>
                      if k = INT_MAX then Inl Undefined_behaviour
                      else sort_points F q (k + 1) (quad_upd cs (quadrant F q pk) c) H'))
            else Inl Undefined_behaviour))
     else Inr (cs, H))"
  by pat_completeness auto
termination
  by (relation "measure (\<lambda>(F, q, k, cs, H). q_size q - k)") auto

declare sort_points.simps [simp del]

text \<open>
  The recursion need not end, so the function is partial: \<open>None\<close> is a run that never
  returns, \<open>Some (Inl e)\<close> one that ends in \<open>e\<close>, \<open>Some (Inr (q', H'))\<close> one that returns
  with the node \<open>q'\<close> in place of \<open>q\<close>. The comparison of line 120 converts \<^verbatim>\<open>size\<close> to
  \<^verbatim>\<open>double\<close>; the conversion is monotone and \<open>100\<close> is a \<^verbatim>\<open>double\<close>, so the test is the
  comparison of the numbers. The four calls are the loop of lines 160, 161, each on the
  child the call before left in place; the node of the last line is \<open>q\<close> after lines
  155-157 (block freed, \<^verbatim>\<open>points = NULL\<close>, \<^verbatim>\<open>size = 0\<close>) with the refined children.
\<close>

partial_function (option) quadtree_refine ::
  "'d fpu \<Rightarrow> 'd quadtree \<Rightarrow> heap \<Rightarrow> (error + 'd quadtree \<times> heap) option" where
  "quadtree_refine F q H =
    (if real (q_size q) > THRESH * real N * real N then
       (case malloc H of
          None \<Rightarrow> Some (Inl Exit_failure)
        | Some H' \<Rightarrow>
         (case sort_points F q 0 (children_init F q) H' of
            Inl e \<Rightarrow> Some (Inl e)
          | Inr (cs, H0) \<Rightarrow>
              do {
                r0 \<leftarrow> quadtree_refine F (quad_nth cs 0) H0;
                case r0 of Inl e \<Rightarrow> Some (Inl e) | Inr (c0, H1) \<Rightarrow>
                do {
                  r1 \<leftarrow> quadtree_refine F (quad_nth cs 1) H1;
                  case r1 of Inl e \<Rightarrow> Some (Inl e) | Inr (c1, H2) \<Rightarrow>
                  do {
                    r2 \<leftarrow> quadtree_refine F (quad_nth cs 2) H2;
                    case r2 of Inl e \<Rightarrow> Some (Inl e) | Inr (c2, H3) \<Rightarrow>
                    do {
                      r3 \<leftarrow> quadtree_refine F (quad_nth cs 3) H3;
                      case r3 of Inl e \<Rightarrow> Some (Inl e) | Inr (c3, H4) \<Rightarrow>
                        Some (Inr (Quadtree (q_x q) (q_y q) (q_w q) (q_h q)
                                     (Some (Quad c0 c1 c2 c3)) 0 None, H4))
                    }
                  }
                }
              }))
     else Some (Inr (q, H)))"

subsection \<open>\<^verbatim>\<open>quadtree_apply_leaves\<close> (lines 166-179)\<close>

text \<open>
  The callback \<^verbatim>\<open>f\<close> acts on a state of its own (\<^verbatim>\<open>grid_print\<close> on its counter and on
  the output); the traversal returns the state after the last call.
\<close>

fun quadtree_apply_leaves :: "'d quadtree \<Rightarrow> ('d quadtree \<Rightarrow> 's \<Rightarrow> 's) \<Rightarrow> 's \<Rightarrow> 's" where
  "quadtree_apply_leaves (Quadtree x y w h (Some (Quad c0 c1 c2 c3)) n pts) f s =
     quadtree_apply_leaves c3 f
       (quadtree_apply_leaves c2 f
         (quadtree_apply_leaves c1 f
           (quadtree_apply_leaves c0 f s)))"
| "quadtree_apply_leaves (Quadtree x y w h None n pts) f s =
     f (Quadtree x y w h None n pts) s"

subsection \<open>The sampling loop of \<^verbatim>\<open>main\<close> (lines 222-258)\<close>

text \<open>Lines 225-231: the root \<open>n\<close>.\<close>

definition root_init :: "'d fpu \<Rightarrow> int \<Rightarrow> 'd quadtree" where
  "root_init F n = Quadtree
     (fp_of_int F (n mod WIDTH + 1)) (fp_of_int F (n div WIDTH + 1))
     (fp_of_int F 1) (fp_of_int F 1) None 0 None"

definition main_roots :: "'d fpu \<Rightarrow> 'd quadtree list" where
  "main_roots F = map (\<lambda>n. root_init F (int n)) [0 ..< nat (WIDTH * HEIGHT)]"

text \<open>Lines 241, 242: the grid point \<open>k\<close> of the pixel \<open>n\<close>.\<close>

definition grid_point :: "'d fpu \<Rightarrow> int \<Rightarrow> int \<Rightarrow> 'd double2" where
  "grid_point F n k = \<lparr>
     p_x = fp_add F (fp_add F (fp_of_int F (n mod WIDTH)) (fp_lit F 0.5))
             (fp_div F (fp_add F (fp_of_int F (k mod int N)) (fp_lit F 0.5)) (fp_of_int F (int N))),
     p_y = fp_add F (fp_add F (fp_of_int F (n div WIDTH)) (fp_lit F 0.5))
             (fp_div F (fp_add F (fp_of_int F (k div int N)) (fp_lit F 0.5)) (fp_of_int F (int N))) \<rparr>"

text \<open>
  Lines 248-256 for a lensed point: the range check, the two conversions to
  \<^verbatim>\<open>int\<close> and the insertion into the root \<open>j*WIDTH + i\<close> of the array \<open>qs\<close>.
\<close>

definition main_insert ::
  "'d fpu \<Rightarrow> 'd double2 \<Rightarrow> 'd quadtree list \<Rightarrow> heap \<Rightarrow> error + 'd quadtree list \<times> heap" where
  "main_insert F point qs H =
    (if fp_lt F (p_x point) (fp_lit F 0.5)
        \<or> fp_ge F (p_x point) (fp_add F (fp_of_int F WIDTH) (fp_lit F 0.5))
        \<or> fp_lt F (p_y point) (fp_lit F 0.5)
        \<or> fp_ge F (p_y point) (fp_add F (fp_of_int F HEIGHT) (fp_lit F 0.5))
     then Inr (qs, H)
     else
       (case fp_to_int F (fp_sub F (p_x point) (fp_lit F 0.5)) of
          None \<Rightarrow> Inl Undefined_behaviour
        | Some i \<Rightarrow>
           (case fp_to_int F (fp_sub F (p_y point) (fp_lit F 0.5)) of
              None \<Rightarrow> Inl Undefined_behaviour
            | Some j \<Rightarrow>
               (if 0 \<le> j * WIDTH + i \<and> nat (j * WIDTH + i) < length qs
                then (case quadtree_add (qs ! nat (j * WIDTH + i)) point H of
                        Inl e \<Rightarrow> Inl e
                      | Inr (q', H') \<Rightarrow> Inr (qs[nat (j * WIDTH + i) := q'], H'))
                else Inl Undefined_behaviour))))"

text \<open>
  The body of the inner loop, lines 241-256. The lens of lines 34-67 is a parameter:
  any function on points.
\<close>

definition main_sample ::
  "'d fpu \<Rightarrow> ('d double2 \<Rightarrow> 'd double2) \<Rightarrow> int \<Rightarrow> int \<Rightarrow> 'd quadtree list \<Rightarrow> heap
     \<Rightarrow> error + 'd quadtree list \<times> heap" where
  "main_sample F lens n k qs H = main_insert F (lens (grid_point F n k)) qs H"

text \<open>The inner loop (line 238) from \<open>k\<close> on and the outer loop (line 235) from \<open>n\<close> on.\<close>

function main_pixel ::
  "'d fpu \<Rightarrow> ('d double2 \<Rightarrow> 'd double2) \<Rightarrow> nat \<Rightarrow> nat \<Rightarrow> 'd quadtree list \<Rightarrow> heap
     \<Rightarrow> error + 'd quadtree list \<times> heap" where
  "main_pixel F lens n k qs H =
    (if k < N * N then
       (case main_sample F lens (int n) (int k) qs H of
          Inl e \<Rightarrow> Inl e
        | Inr (qs', H') \<Rightarrow> main_pixel F lens n (k + 1) qs' H')
     else Inr (qs, H))"
  by pat_completeness auto
termination
  by (relation "measure (\<lambda>(F, lens, n, k, qs, H). N * N - k)") auto

declare main_pixel.simps [simp del]

function main_fill ::
  "'d fpu \<Rightarrow> ('d double2 \<Rightarrow> 'd double2) \<Rightarrow> nat \<Rightarrow> 'd quadtree list \<Rightarrow> heap
     \<Rightarrow> error + 'd quadtree list \<times> heap" where
  "main_fill F lens n qs H =
    (if int n < WIDTH * HEIGHT then
       (case main_pixel F lens n 0 qs H of
          Inl e \<Rightarrow> Inl e
        | Inr (qs', H') \<Rightarrow> main_fill F lens (n + 1) qs' H')
     else Inr (qs, H))"
  by pat_completeness auto
termination
  by (relation "measure (\<lambda>(F, lens, n, qs, H). nat (WIDTH * HEIGHT) - n)") auto

declare main_fill.simps [simp del]

subsection \<open>Notions of the specification\<close>

text \<open>A node as lines 225-231 and 134-140 create it: an empty leaf.\<close>

definition empty_leaf :: "'d \<Rightarrow> 'd \<Rightarrow> 'd \<Rightarrow> 'd \<Rightarrow> 'd quadtree" where
  "empty_leaf cx cy cw ch = Quadtree cx cy cw ch None 0 None"

text \<open>
  The buffer of a node: the first \<open>size\<close> cells of its block, in order; the points
  stored in it: the contents of the written cells among them. Its capacity: the number of
  cells of the block.
\<close>

definition buffer :: "'d quadtree \<Rightarrow> 'd double2 option list" where
  "buffer q = (case q_points q of None \<Rightarrow> [] | Some cells \<Rightarrow> take (q_size q) cells)"

definition stored :: "'d quadtree \<Rightarrow> 'd double2 list" where
  "stored q = concat (map (\<lambda>c. case c of None \<Rightarrow> [] | Some p \<Rightarrow> [p]) (buffer q))"

definition capacity :: "'d quadtree \<Rightarrow> nat" where
  "capacity q = (case q_points q of None \<Rightarrow> 0 | Some cells \<Rightarrow> length cells)"

text \<open>
  The state of a buffer that \<^verbatim>\<open>quadtree_add\<close> relies on and keeps: the capacity is
  \<open>size\<close> rounded up to a multiple of \<open>N\<close> (the least multiple of \<open>N\<close> that is not
  below \<open>size\<close>), and the cells below \<open>size\<close> are written.
\<close>

definition buffer_inv :: "'d quadtree \<Rightarrow> bool" where
  "buffer_inv q \<longleftrightarrow>
     capacity q mod N = 0 \<and> q_size q \<le> capacity q \<and> capacity q < q_size q + N
     \<and> list_all (\<lambda>c. c \<noteq> None) (buffer q)"

text \<open>Successive calls of \<^verbatim>\<open>quadtree_add\<close> on one node, as lines 238-257 make them.\<close>

fun insert_all :: "'d quadtree \<Rightarrow> 'd double2 list \<Rightarrow> heap \<Rightarrow> error + 'd quadtree \<times> heap" where
  "insert_all q [] H = Inr (q, H)"
| "insert_all q (p # ps) H =
     (case quadtree_add q p H of Inl e \<Rightarrow> Inl e | Inr (q', H') \<Rightarrow> insert_all q' ps H')"

text \<open>
  The leaves of a tree as section 4.4 of the specification enumerates them: the children
  of an internal node in the order 0, 1, 2, 3, a leaf itself.
\<close>

fun leaves :: "'d quadtree \<Rightarrow> 'd quadtree list" where
  "leaves (Quadtree x y w h (Some (Quad c0 c1 c2 c3)) n pts) =
     leaves c0 @ leaves c1 @ leaves c2 @ leaves c3"
| "leaves (Quadtree x y w h None n pts) = [Quadtree x y w h None n pts]"

text \<open>The points a tree holds: those stored in its leaves, in the order of the leaves.\<close>

definition tree_points :: "'d quadtree \<Rightarrow> 'd double2 list" where
  "tree_points q = concat (map stored (leaves q))"

text \<open>All nodes of a tree, and the node at the end of a path of child indices.\<close>

fun nodes :: "'d quadtree \<Rightarrow> 'd quadtree list" where
  "nodes (Quadtree x y w h (Some (Quad c0 c1 c2 c3)) n pts) =
     Quadtree x y w h (Some (Quad c0 c1 c2 c3)) n pts
       # nodes c0 @ nodes c1 @ nodes c2 @ nodes c3"
| "nodes (Quadtree x y w h None n pts) = [Quadtree x y w h None n pts]"

fun subtree :: "'d quadtree \<Rightarrow> nat list \<Rightarrow> 'd quadtree option" where
  "subtree q [] = Some q"
| "subtree q (k # ks) =
     (case q_child q of
        None \<Rightarrow> None
      | Some cs \<Rightarrow> if k < 4 then subtree (quad_nth cs k) ks else None)"

text \<open>The paths to the leaves, in the order of the traversal.\<close>

fun leaf_paths :: "'d quadtree \<Rightarrow> nat list list" where
  "leaf_paths (Quadtree x y w h (Some (Quad c0 c1 c2 c3)) n pts) =
     map ((#) 0) (leaf_paths c0) @ map ((#) 1) (leaf_paths c1)
       @ map ((#) 2) (leaf_paths c2) @ map ((#) 3) (leaf_paths c3)"
| "leaf_paths (Quadtree x y w h None n pts) = [[]]"

text \<open>Two callbacks: one records the nodes it is called on, one adds up their counts.\<close>

definition record_leaf :: "'d quadtree \<Rightarrow> 'd quadtree list \<Rightarrow> 'd quadtree list" where
  "record_leaf q s = s @ [q]"

definition count_points :: "'d quadtree \<Rightarrow> nat \<Rightarrow> nat" where
  "count_points q s = s + q_size q"

text \<open>Invariant A of the specification, for one node.\<close>

definition exclusive :: "'d quadtree \<Rightarrow> bool" where
  "exclusive q \<longleftrightarrow> q_child q = None \<or> (q_size q = 0 \<and> q_points q = None)"

text \<open>
  A sequence of operations on one node. \<open>leaf_inserts\<close> says that every insertion of the
  sequence meets the node in leaf state, which section 4.2 requires of an insertion.
\<close>

datatype 'd operation = Insert "'d double2" | Refine

fun run_ops ::
  "'d fpu \<Rightarrow> 'd operation list \<Rightarrow> 'd quadtree \<Rightarrow> heap \<Rightarrow> (error + 'd quadtree \<times> heap) option" where
  "run_ops F [] q H = Some (Inr (q, H))"
| "run_ops F (Insert p # ops) q H =
     (case quadtree_add q p H of
        Inl e \<Rightarrow> Some (Inl e)
      | Inr (q', H') \<Rightarrow> run_ops F ops q' H')"
| "run_ops F (Refine # ops) q H =
     (case quadtree_refine F q H of
        None \<Rightarrow> None
      | Some (Inl e) \<Rightarrow> Some (Inl e)
      | Some (Inr (q', H')) \<Rightarrow> run_ops F ops q' H')"

fun leaf_inserts :: "'d fpu \<Rightarrow> 'd operation list \<Rightarrow> 'd quadtree \<Rightarrow> heap \<Rightarrow> bool" where
  "leaf_inserts F [] q H = True"
| "leaf_inserts F (Insert p # ops) q H =
     (q_child q = None \<and>
      (case quadtree_add q p H of
         Inl e \<Rightarrow> True
       | Inr (q', H') \<Rightarrow> leaf_inserts F ops q' H'))"
| "leaf_inserts F (Refine # ops) q H =
     (case quadtree_refine F q H of
        None \<Rightarrow> True
      | Some (Inl e) \<Rightarrow> True
      | Some (Inr (q', H')) \<Rightarrow> leaf_inserts F ops q' H')"

text \<open>
  The state of the array of roots during the sampling loop: \<open>WIDTH*HEIGHT\<close> leaves, the
  root \<open>n\<close> with the centre and the extent that lines 225-228 gave it, each buffer in
  the state \<open>buffer_inv\<close>.
\<close>

definition roots_inv :: "'d fpu \<Rightarrow> 'd quadtree list \<Rightarrow> bool" where
  "roots_inv F qs \<longleftrightarrow>
     length qs = nat (WIDTH * HEIGHT)
     \<and> list_all (\<lambda>n. q_x (qs ! n) = fp_of_int F (int n mod WIDTH + 1)
                   \<and> q_y (qs ! n) = fp_of_int F (int n div WIDTH + 1)
                   \<and> q_w (qs ! n) = fp_of_int F 1 \<and> q_h (qs ! n) = fp_of_int F 1
                   \<and> q_child (qs ! n) = None \<and> buffer_inv (qs ! n))
         [0 ..< length qs]"

text \<open>A lens for examples: a shift.\<close>

definition shift_lens :: "real double2 \<Rightarrow> real double2" where
  "shift_lens p = \<lparr>p_x = p_x p + 3.2, p_y = p_y p + 7.9\<rparr>"

text \<open>
  The scenario of section 8 of the specification: a root with centre \<open>(1, 1)\<close> and extent
  \<open>(1, 1)\<close>, and 150 points spread over its four quadrants.
\<close>

definition scenario_points :: "real double2 list" where
  "scenario_points =
     replicate 38 \<lparr>p_x = 0.8, p_y = 0.8\<rparr> @ replicate 38 \<lparr>p_x = 1.2, p_y = 0.8\<rparr>
     @ replicate 37 \<lparr>p_x = 0.8, p_y = 1.2\<rparr> @ replicate 37 \<lparr>p_x = 1.2, p_y = 1.2\<rparr>"

text \<open>A leaf over natural numbers that holds nothing but a label, for examples of trees.\<close>

definition labelled_leaf :: "nat \<Rightarrow> nat quadtree" where
  "labelled_leaf k = Quadtree k 0 0 0 None k None"

text \<open>
  The four children are where lines 134-137 put them, seen from the parent \<open>n\<close>: the
  child \<open>(i, j)\<close> at index \<open>j*2 + i\<close>, with the expressions of the program.
\<close>

definition child_geometry :: "'d fpu \<Rightarrow> 'd quadtree \<Rightarrow> 'd quadtree quad \<Rightarrow> bool" where
  "child_geometry F n cs \<longleftrightarrow>
     (\<forall>i\<in>{0, 1}. \<forall>j\<in>{0, 1}.
        q_w (quad_nth cs (nat (j * 2 + i))) = fp_mul F (fp_lit F 0.5) (q_w n)
      \<and> q_h (quad_nth cs (nat (j * 2 + i))) = fp_mul F (fp_lit F 0.5) (q_h n)
      \<and> q_x (quad_nth cs (nat (j * 2 + i))) =
          fp_add F (q_x n) (fp_mul F (fp_mul F (fp_of_int F (2 * i - 1)) (fp_lit F 0.25)) (q_w n))
      \<and> q_y (quad_nth cs (nat (j * 2 + i))) =
          fp_add F (q_y n) (fp_mul F (fp_mul F (fp_of_int F (2 * j - 1)) (fp_lit F 0.25)) (q_h n)))"




section \<open>The point buffer\<close>

lemma mult_between:
  fixes a b :: nat
  assumes "a mod N = 0" "b mod N = 0" "a \<le> b" "b < a + N"
  shows "a = b"
proof -
  have "N dvd b - a" using assms(1,2) by (simp add: dvd_diff_nat mod_eq_0_iff_dvd)
  moreover have "b - a < N" using assms(3,4) by simp
  ultimately have "b - a = 0" using dvd_imp_le by fastforce
  with assms(3) show ?thesis by simp
qed

lemma N_pos: "0 < N" by (simp add: N_def)

lemma buffer_inv_full:
  assumes "buffer_inv q" "q_size q mod N = 0"
  shows "capacity q = q_size q"
  using assms mult_between [of "q_size q" "capacity q"] by (simp add: buffer_inv_def)

lemma buffer_inv_room:
  assumes "buffer_inv q" "q_size q mod N \<noteq> 0"
  shows "q_size q < capacity q"
  using assms by (auto simp: buffer_inv_def le_less)

lemma length_buffer: "buffer_inv q \<Longrightarrow> length (buffer q) = q_size q"
  by (auto simp: buffer_inv_def buffer_def capacity_def split: option.splits)

lemma double2_copy [simp]: "\<lparr>p_x = p_x p, p_y = p_y p\<rparr> = (p :: 'd double2)"
  by simp

lemma quadtree_add_grow:
  assumes "buffer_inv q" "q_size q mod N = 0" "H \<noteq> 0"
  shows "quadtree_add q p H =
     Inr (Quadtree (q_x q) (q_y q) (q_w q) (q_h q) (q_child q) (q_size q + 1)
            (Some (buffer q @ Some p # replicate (N - 1) None)), H - 1)"
proof -
  have cap: "capacity q = q_size q" using assms by (simp add: buffer_inv_full)
  have rep: "replicate N None = (None :: 'd double2 option) # replicate (N - 1) None"
  proof -
    have "Suc (N - 1) = N" using N_pos by simp
    then show ?thesis by (metis replicate_Suc)
  qed
  show ?thesis
  proof (cases "q_points q")
    case None
    with cap assms(2,3) show ?thesis
      by (simp add: quadtree_add_def realloc_def malloc_def buffer_def capacity_def rep)
  next
    case (Some cells)
    with cap assms(2,3) show ?thesis
      by (simp add: quadtree_add_def realloc_def malloc_def buffer_def capacity_def rep
          list_update_append)
  qed
qed

lemma quadtree_add_fail:
  assumes "q_size q mod N = 0"
  shows "quadtree_add q p 0 = Inl Exit_failure"
  using assms by (simp add: quadtree_add_def realloc_def malloc_def)

lemma quadtree_add_room:
  assumes "buffer_inv q" "q_size q mod N \<noteq> 0"
  shows "\<exists>cells. q_points q = Some cells \<and> q_size q < length cells \<and> quadtree_add q p H =
     Inr (Quadtree (q_x q) (q_y q) (q_w q) (q_h q) (q_child q) (q_size q + 1)
            (Some (cells[q_size q := Some p])), H)"
  using buffer_inv_room [OF assms] assms(2)
  by (cases "q_points q") (simp_all add: quadtree_add_def capacity_def)


lemma take_Suc_update:
  "n < length xs \<Longrightarrow> take (Suc n) (xs[n := v]) = take n xs @ [v]"
  by (simp add: take_Suc_conv_app_nth)

lemma quadtree_add_Inr:
  assumes inv: "buffer_inv q" and add: "quadtree_add q p H = Inr (q', H')"
  shows "q_size q' = q_size q + 1"
    and "buffer q' = buffer q @ [Some p]"
    and "buffer_inv q'"
    and "capacity q' = (if q_size q mod N = 0 then capacity q + N else capacity q)"
    and "H' = (if q_size q mod N = 0 then H - 1 else H)"
    and "q_size q mod N = 0 \<longrightarrow> H \<noteq> 0"
    and "q_x q' = q_x q" and "q_y q' = q_y q" and "q_w q' = q_w q" and "q_h q' = q_h q"
    and "q_child q' = q_child q"
proof -
  have len: "length (buffer q) = q_size q" using inv by (rule length_buffer)
  have all: "list_all (\<lambda>c. c \<noteq> None) (buffer q)" using inv by (simp add: buffer_inv_def)
  have "q_size q' = q_size q + 1 \<and> buffer q' = buffer q @ [Some p]
      \<and> capacity q' = (if q_size q mod N = 0 then capacity q + N else capacity q)
      \<and> H' = (if q_size q mod N = 0 then H - 1 else H)
      \<and> (q_size q mod N = 0 \<longrightarrow> H \<noteq> 0)
      \<and> q_x q' = q_x q \<and> q_y q' = q_y q \<and> q_w q' = q_w q \<and> q_h q' = q_h q
      \<and> q_child q' = q_child q"
  proof (cases "q_size q mod N = 0")
    case True
    have H: "H \<noteq> 0"
    proof
      assume "H = 0"
      with add quadtree_add_fail [OF True, of p] show False by simp
    qed
    have cap: "capacity q = q_size q" using inv True by (rule buffer_inv_full)
    have q': "q' = Quadtree (q_x q) (q_y q) (q_w q) (q_h q) (q_child q) (q_size q + 1)
            (Some (buffer q @ Some p # replicate (N - 1) None))" and H': "H' = H - 1"
      using add quadtree_add_grow [OF inv True H, of p] by simp_all
    show ?thesis
      using True H len cap N_pos unfolding q' H'
      by (simp add: buffer_def [of "Quadtree _ _ _ _ _ _ _"] capacity_def [of "Quadtree _ _ _ _ _ _ _"])
  next
    case False
    from quadtree_add_room [OF inv False, of p H] obtain cells where
      cells: "q_points q = Some cells" "q_size q < length cells"
      and eq: "quadtree_add q p H = Inr (Quadtree (q_x q) (q_y q) (q_w q) (q_h q) (q_child q)
          (q_size q + 1) (Some (cells[q_size q := Some p])), H)"
      by blast
    have q': "q' = Quadtree (q_x q) (q_y q) (q_w q) (q_h q) (q_child q)
          (q_size q + 1) (Some (cells[q_size q := Some p]))" and H': "H' = H"
      using add eq by simp_all
    show ?thesis
      using False cells unfolding q' H'
      by (simp add: buffer_def capacity_def take_Suc_update)
  qed
  then show "q_size q' = q_size q + 1"
    and b: "buffer q' = buffer q @ [Some p]"
    and c: "capacity q' = (if q_size q mod N = 0 then capacity q + N else capacity q)"
    and "H' = (if q_size q mod N = 0 then H - 1 else H)"
    and "q_size q mod N = 0 \<longrightarrow> H \<noteq> 0"
    and "q_x q' = q_x q" and "q_y q' = q_y q" and "q_w q' = q_w q" and "q_h q' = q_h q"
    and "q_child q' = q_child q"
    by simp_all
  show "buffer_inv q'"
  proof (cases "q_size q mod N = 0")
    case True
    then show ?thesis
      unfolding buffer_inv_def b c \<open>q_size q' = q_size q + 1\<close>
      using buffer_inv_full [OF inv True] all N_pos by simp
  next
    case False
    then show ?thesis
      unfolding buffer_inv_def b c \<open>q_size q' = q_size q + 1\<close>
      using buffer_inv_room [OF inv False] inv all by (simp add: buffer_inv_def)
  qed
qed

lemma quadtree_add_returns:
  assumes "buffer_inv q" and "q_size q mod N = 0 \<longrightarrow> H \<noteq> 0"
  shows "\<exists>q' H'. quadtree_add q p H = Inr (q', H')"
proof (cases "q_size q mod N = 0")
  case True
  with assms quadtree_add_grow [of q H p] show ?thesis by simp
next
  case False
  with assms quadtree_add_room [of q p H] show ?thesis by blast
qed

lemma quadtree_add_Inl:
  assumes "buffer_inv q" and "quadtree_add q p H = Inl e"
  shows "e = Exit_failure \<and> q_size q mod N = 0 \<and> H = 0"
proof (cases "q_size q mod N = 0 \<and> H = 0")
  case True
  with assms(2) quadtree_add_fail [of q p] show ?thesis by simp
next
  case False
  with quadtree_add_returns [OF assms(1), of H p] assms(2) show ?thesis by auto
qed

lemma buffer_inv_empty_leaf [simp]: "buffer_inv (empty_leaf cx cy cw ch)"
  by (simp add: buffer_inv_def empty_leaf_def capacity_def buffer_def N_pos)

lemma insert_all_Inr:
  assumes "buffer_inv q" and "insert_all q ps H = Inr (q', H')"
  shows "buffer_inv q' \<and> q_size q' = q_size q + length ps
     \<and> buffer q' = buffer q @ map Some ps
     \<and> q_x q' = q_x q \<and> q_y q' = q_y q \<and> q_w q' = q_w q \<and> q_h q' = q_h q
     \<and> q_child q' = q_child q"
  using assms
proof (induction ps arbitrary: q H)
  case Nil
  then show ?case by simp
next
  case (Cons p ps)
  from Cons.prems(2) obtain q1 H1 where
    add: "quadtree_add q p H = Inr (q1, H1)" and rest: "insert_all q1 ps H1 = Inr (q', H')"
    by (auto split: sum.splits)
  note a = quadtree_add_Inr [OF Cons.prems(1) add]
  from Cons.IH [OF a(3) rest] a show ?case by simp
qed

lemma insert_all_returns:
  assumes "buffer_inv q"
  shows "\<exists>q'. insert_all q ps \<infinity> = Inr (q', \<infinity>)"
  using assms
proof (induction ps arbitrary: q)
  case Nil
  then show ?case by simp
next
  case (Cons p ps)
  from quadtree_add_returns [OF Cons.prems, of \<infinity> p] obtain q1 H1 where
    add: "quadtree_add q p \<infinity> = Inr (q1, H1)" by auto
  note a = quadtree_add_Inr [OF Cons.prems add]
  from a(5) have "H1 = \<infinity>" by simp
  with Cons.IH [OF a(3)] add show ?case by simp
qed

lemma apply_leaves_leaf:
  "q_child q = None \<Longrightarrow> quadtree_apply_leaves q f s = f q s"
  by (cases q) simp

text \<open>
  Claim C9 (append contract). On a buffer in the state \<open>buffer_inv\<close>, and when the
  allocator satisfies the request that a full buffer makes, \<^verbatim>\<open>quadtree_add\<close> returns;
  the new buffer is the old one followed by a copy of \<open>p\<close>, the count has grown by
  exactly one, and the stored points before it are where they were. The buffer is full
  before the call exactly when the count is a multiple of \<open>N\<close>; exactly then the
  capacity grows, by \<open>N\<close>, and one request goes to the allocator; otherwise the capacity
  stays and the allocator is not called.
\<close>

theorem quadtree_add_append:
  assumes "buffer_inv q" and "q_size q mod N = 0 \<longrightarrow> H \<noteq> 0"
  shows "\<exists>q' H'. quadtree_add q p H = Inr (q', H')
     \<and> buffer q' = buffer q @ [Some p]
     \<and> q_size q' = q_size q + 1
     \<and> (q_size q = capacity q \<longleftrightarrow> q_size q mod N = 0)
     \<and> capacity q' = (if q_size q mod N = 0 then capacity q + N else capacity q)
     \<and> H' = (if q_size q mod N = 0 then H - 1 else H)"
proof -
  from quadtree_add_returns [OF assms, of p] obtain q' H' where
    add: "quadtree_add q p H = Inr (q', H')" by blast
  note a = quadtree_add_Inr [OF assms(1) add]
  have "q_size q = capacity q \<longleftrightarrow> q_size q mod N = 0"
    using buffer_inv_full [OF assms(1)] assms(1) by (auto simp: buffer_inv_def)
  with add a(1,2,4,5) show ?thesis by (intro exI conjI)
qed

theorem quadtree_add_append_witness:
  "buffer_inv (empty_leaf (1::real) 1 1 1)
   \<and> q_size (empty_leaf (1::real) 1 1 1) mod N = 0 \<and> (5::enat) \<noteq> 0
   \<and> (\<exists>q' H'. quadtree_add (empty_leaf (1::real) 1 1 1) \<lparr>p_x = 0.7, p_y = 1.2\<rparr> 5 = Inr (q', H')
     \<and> buffer q' = [Some \<lparr>p_x = 0.7, p_y = 1.2\<rparr>]
     \<and> q_size q' = 1
     \<and> capacity q' = 10
     \<and> H' = 4)"
proof -
  have inv: "buffer_inv (empty_leaf (1::real) 1 1 1)"
    by (simp add: buffer_inv_def empty_leaf_def capacity_def buffer_def N_def)
  have ok: "q_size (empty_leaf (1::real) 1 1 1) mod N = 0 \<longrightarrow> (5::enat) \<noteq> 0"
    by simp
  have minus: "(5::enat) - 1 = 4"
    by (simp add: numeral_eq_enat one_enat_def)
  have full: "q_size (empty_leaf (1::real) 1 1 1) mod N = 0"
    by (simp add: empty_leaf_def)
  from quadtree_add_append [OF inv ok, of "\<lparr>p_x = 0.7, p_y = 1.2\<rparr>"] inv full show ?thesis
    by (simp add: empty_leaf_def buffer_def [of "Quadtree _ _ _ _ _ _ _"]
        capacity_def [of "Quadtree _ _ _ _ _ _ _"] N_def minus)
qed

section \<open>Redistribution\<close>

lemma quad_nth_upd:
  "i < 4 \<Longrightarrow> quad_nth (quad_upd cs i v) j = (if j = i \<or> (3 \<le> i \<and> 3 \<le> j) then v else quad_nth cs j)"
  by (cases cs) auto

lemma quad_nth_upd_lt:
  "i < 4 \<Longrightarrow> j < 4 \<Longrightarrow> quad_nth (quad_upd cs i v) j = (if j = i then v else quad_nth cs j)"
  by (cases cs) auto

lemma pred_quad_nth: "pred_quad P cs \<longleftrightarrow> (\<forall>k<4. P (quad_nth cs k))"
proof (cases cs)
  case (Quad a b c d)
  have "(\<forall>k<4. P (quad_nth cs k)) \<longleftrightarrow> P (quad_nth cs 0) \<and> P (quad_nth cs 1) \<and> P (quad_nth cs 2) \<and> P (quad_nth cs 3)"
  proof
    assume r: "P (quad_nth cs 0) \<and> P (quad_nth cs 1) \<and> P (quad_nth cs 2) \<and> P (quad_nth cs 3)"
    show "\<forall>k<4. P (quad_nth cs k)"
    proof (intro allI impI)
      fix k :: nat assume "k < 4"
      then have "k = 0 \<or> k = 1 \<or> k = 2 \<or> k = 3" by arith
      with r show "P (quad_nth cs k)" by auto
    qed
  qed simp
  with Quad show ?thesis by simp
qed

lemma quadrant_lt: "quadrant F q p < 4"
  by (simp add: quadrant_def)

lemma all_written:
  "list_all (\<lambda>c. c \<noteq> None) xs \<Longrightarrow>
     xs = map Some (concat (map (\<lambda>c. case c of None \<Rightarrow> [] | Some p \<Rightarrow> [p]) xs))"
  by (induction xs) auto

lemma buffer_stored: "buffer_inv q \<Longrightarrow> buffer q = map Some (stored q)"
proof -
  assume "buffer_inv q"
  then have "list_all (\<lambda>c. c \<noteq> None) (buffer q)" unfolding buffer_inv_def by blast
  then show "buffer q = map Some (stored q)"
    unfolding stored_def by (rule all_written)
qed

lemma length_stored: "buffer_inv q \<Longrightarrow> length (stored q) = q_size q"
  using buffer_stored [of q] length_buffer [of q] by (metis length_map)

lemma stored_append: "buffer q' = buffer q @ [Some p] \<Longrightarrow> stored q' = stored q @ [p]"
  by (simp add: stored_def)

lemma cell_stored:
  assumes "buffer_inv q" "k < q_size q"
  shows "\<exists>cells. q_points q = Some cells \<and> k < length cells \<and> cells ! k = Some (stored q ! k)"
proof -
  from assms have "buffer q ! k = Some (stored q ! k)"
    using buffer_stored [OF assms(1)] length_stored [OF assms(1)] by simp
  moreover from assms have "q_size q \<le> capacity q" by (simp add: buffer_inv_def)
  ultimately show ?thesis using assms(2)
    by (cases "q_points q") (simp_all add: buffer_def capacity_def)
qed

lemma sort_points_Inr:
  assumes "sort_points F q k cs H = Inr (cs', H')" and "buffer_inv q" and "pred_quad buffer_inv cs"
  shows "pred_quad buffer_inv cs' \<and>
    (\<forall>c<4. stored (quad_nth cs' c) =
              stored (quad_nth cs c) @ filter (\<lambda>p. quadrant F q p = c) (drop k (stored q))
          \<and> q_x (quad_nth cs' c) = q_x (quad_nth cs c) \<and> q_y (quad_nth cs' c) = q_y (quad_nth cs c)
          \<and> q_w (quad_nth cs' c) = q_w (quad_nth cs c) \<and> q_h (quad_nth cs' c) = q_h (quad_nth cs c)
          \<and> q_child (quad_nth cs' c) = q_child (quad_nth cs c))"
  using assms
proof (induction "q_size q - k" arbitrary: k cs H)
  case 0
  then have False: "\<not> k < q_size q" by simp
  with "0.prems"(1) have "cs' = cs" by (simp add: sort_points.simps [of F q k])
  moreover from False have "drop k (stored q) = []"
    using length_stored [OF "0.prems"(2)] by simp
  ultimately show ?case using "0.prems"(3) by simp
next
  case (Suc m)
  show ?case
  proof (cases "k < q_size q")
    case False
    with Suc.prems(1) have "cs' = cs" by (simp add: sort_points.simps [of F q k])
    moreover from False have "drop k (stored q) = []"
      using length_stored [OF Suc.prems(2)] by simp
    ultimately show ?thesis using Suc.prems(3) by simp
  next
    case True
    from cell_stored [OF Suc.prems(2) True] obtain cells where
      cells: "q_points q = Some cells" "k < length cells" "cells ! k = Some (stored q ! k)"
      by blast
    define pk where "pk = stored q ! k"
    define i where "i = quadrant F q pk"
    have i4: "i < 4" by (simp add: i_def quadrant_lt)
    from Suc.prems(1) True cells obtain c H1 where
      add: "quadtree_add (quad_nth cs i) pk H = Inr (c, H1)"
      and notmax: "k \<noteq> INT_MAX"
      and rest: "sort_points F q (k + 1) (quad_upd cs i c) H1 = Inr (cs', H')"
      by (simp add: sort_points.simps [of F q k] pk_def i_def split: sum.splits if_splits prod.splits)
    have inv_i: "buffer_inv (quad_nth cs i)"
      using Suc.prems(3) i4 by (simp add: pred_quad_nth)
    note a = quadtree_add_Inr [OF inv_i add]
    have inv': "pred_quad buffer_inv (quad_upd cs i c)"
      using Suc.prems(3) a(3) i4 by (simp add: pred_quad_nth quad_nth_upd_lt)
    have IH: "pred_quad buffer_inv cs' \<and>
      (\<forall>c'<4. stored (quad_nth cs' c') =
              stored (quad_nth (quad_upd cs i c) c') @ filter (\<lambda>p. quadrant F q p = c') (drop (k + 1) (stored q))
          \<and> q_x (quad_nth cs' c') = q_x (quad_nth (quad_upd cs i c) c')
          \<and> q_y (quad_nth cs' c') = q_y (quad_nth (quad_upd cs i c) c')
          \<and> q_w (quad_nth cs' c') = q_w (quad_nth (quad_upd cs i c) c')
          \<and> q_h (quad_nth cs' c') = q_h (quad_nth (quad_upd cs i c) c')
          \<and> q_child (quad_nth cs' c') = q_child (quad_nth (quad_upd cs i c) c'))"
      using Suc.hyps(1) [of "k + 1", OF _ rest Suc.prems(2) inv'] Suc.hyps(2)
      by simp
    have drop: "drop k (stored q) = pk # drop (k + 1) (stored q)"
      using True length_stored [OF Suc.prems(2)] by (simp add: pk_def Cons_nth_drop_Suc)
    show ?thesis
    proof (intro conjI allI impI)
      show "pred_quad buffer_inv cs'" using IH by simp
    next
      fix c' :: nat assume c': "c' < 4"
      with IH have *: "stored (quad_nth cs' c') =
              stored (quad_nth (quad_upd cs i c) c') @ filter (\<lambda>p. quadrant F q p = c') (drop (k + 1) (stored q))"
        and g: "q_x (quad_nth cs' c') = q_x (quad_nth (quad_upd cs i c) c')"
          "q_y (quad_nth cs' c') = q_y (quad_nth (quad_upd cs i c) c')"
          "q_w (quad_nth cs' c') = q_w (quad_nth (quad_upd cs i c) c')"
          "q_h (quad_nth cs' c') = q_h (quad_nth (quad_upd cs i c) c')"
          "q_child (quad_nth cs' c') = q_child (quad_nth (quad_upd cs i c) c')"
        by simp_all
      show "stored (quad_nth cs' c') =
              stored (quad_nth cs c') @ filter (\<lambda>p. quadrant F q p = c') (drop k (stored q))"
        using * c' i4 stored_append [OF a(2)]
        by (simp add: drop quad_nth_upd_lt i_def)
      show "q_x (quad_nth cs' c') = q_x (quad_nth cs c')" "q_y (quad_nth cs' c') = q_y (quad_nth cs c')"
        "q_w (quad_nth cs' c') = q_w (quad_nth cs c')" "q_h (quad_nth cs' c') = q_h (quad_nth cs c')"
        "q_child (quad_nth cs' c') = q_child (quad_nth cs c')"
        using g c' i4 a(7-11) by (simp_all add: quad_nth_upd_lt)
    qed
  qed
qed

lemma sort_points_frame:
  assumes "sort_points F q k cs H = Inr (cs', H')" and "pred_quad buffer_inv cs"
  shows "pred_quad buffer_inv cs' \<and>
    (\<forall>c<4. q_x (quad_nth cs' c) = q_x (quad_nth cs c) \<and> q_y (quad_nth cs' c) = q_y (quad_nth cs c)
          \<and> q_w (quad_nth cs' c) = q_w (quad_nth cs c) \<and> q_h (quad_nth cs' c) = q_h (quad_nth cs c)
          \<and> q_child (quad_nth cs' c) = q_child (quad_nth cs c))
    \<and> (H = \<infinity> \<longrightarrow> H' = \<infinity>)"
  using assms
proof (induction "q_size q - k" arbitrary: k cs H)
  case 0
  then have "\<not> k < q_size q" by simp
  with "0.prems"(1) have "cs' = cs" "H' = H" by (simp_all add: sort_points.simps [of F q k])
  then show ?case using "0.prems"(2) by simp
next
  case (Suc m)
  show ?case
  proof (cases "k < q_size q")
    case False
    with Suc.prems(1) have "cs' = cs" "H' = H" by (simp_all add: sort_points.simps [of F q k])
    then show ?thesis using Suc.prems(2) by simp
  next
    case True
    with Suc.prems(1) obtain pk c H1 where
      add: "quadtree_add (quad_nth cs (quadrant F q pk)) pk H = Inr (c, H1)"
      and rest: "sort_points F q (k + 1) (quad_upd cs (quadrant F q pk) c) H1 = Inr (cs', H')"
      by (auto simp: sort_points.simps [of F q k] split: option.splits sum.splits if_splits prod.splits)
    define i where "i = quadrant F q pk"
    have i4: "i < 4" by (simp add: i_def quadrant_lt)
    have inv_i: "buffer_inv (quad_nth cs i)"
      using Suc.prems(2) i4 by (simp add: pred_quad_nth)
    note a = quadtree_add_Inr [OF inv_i add [folded i_def]]
    have inv': "pred_quad buffer_inv (quad_upd cs i c)"
      using Suc.prems(2) a(3) i4 by (simp add: pred_quad_nth quad_nth_upd_lt)
    have H1: "H = \<infinity> \<longrightarrow> H1 = \<infinity>" using a(5) by simp
    have IH: "pred_quad buffer_inv cs' \<and>
      (\<forall>c'<4. q_x (quad_nth cs' c') = q_x (quad_nth (quad_upd cs i c) c')
          \<and> q_y (quad_nth cs' c') = q_y (quad_nth (quad_upd cs i c) c')
          \<and> q_w (quad_nth cs' c') = q_w (quad_nth (quad_upd cs i c) c')
          \<and> q_h (quad_nth cs' c') = q_h (quad_nth (quad_upd cs i c) c')
          \<and> q_child (quad_nth cs' c') = q_child (quad_nth (quad_upd cs i c) c'))
      \<and> (H1 = \<infinity> \<longrightarrow> H' = \<infinity>)"
      using Suc.hyps(1) [of "k + 1", OF _ rest [folded i_def] inv'] Suc.hyps(2)
      by simp
    show ?thesis
    proof (intro conjI allI impI)
      show "pred_quad buffer_inv cs'" using IH by simp
    next
      assume "H = \<infinity>" with H1 IH show "H' = \<infinity>" by simp
    next
      fix c' :: nat assume c': "c' < 4"
      with IH have g: "q_x (quad_nth cs' c') = q_x (quad_nth (quad_upd cs i c) c')"
          "q_y (quad_nth cs' c') = q_y (quad_nth (quad_upd cs i c) c')"
          "q_w (quad_nth cs' c') = q_w (quad_nth (quad_upd cs i c) c')"
          "q_h (quad_nth cs' c') = q_h (quad_nth (quad_upd cs i c) c')"
          "q_child (quad_nth cs' c') = q_child (quad_nth (quad_upd cs i c) c')"
        by simp_all
      show "q_x (quad_nth cs' c') = q_x (quad_nth cs c')" "q_y (quad_nth cs' c') = q_y (quad_nth cs c')"
        "q_w (quad_nth cs' c') = q_w (quad_nth cs c')" "q_h (quad_nth cs' c') = q_h (quad_nth cs c')"
        "q_child (quad_nth cs' c') = q_child (quad_nth cs c')"
        using g c' i4 a(7-11) by (simp_all add: quad_nth_upd_lt)
    qed
  qed
qed

lemma buffer_inv_fresh: "buffer_inv (Quadtree cx cy cw ch cc 0 None)"
  by (simp add: buffer_inv_def capacity_def buffer_def N_pos)

lemma children_init_inv: "pred_quad buffer_inv (children_init F q)"
  by (simp add: children_init_def child_init_def buffer_inv_fresh)

lemma children_init_leaf: "c < 4 \<Longrightarrow> q_child (quad_nth (children_init F q) c) = None"
  by (simp add: children_init_def child_init_def)

lemma children_init_stored: "c < 4 \<Longrightarrow> stored (quad_nth (children_init F q) c) = []"
  by (simp add: children_init_def child_init_def stored_def buffer_def)

lemma sorted_children:
  assumes "sort_points F q 0 (children_init F q) H0 = Inr (cs, Ha)" and "c < 4"
  shows "buffer_inv (quad_nth cs c)" and "q_child (quad_nth cs c) = None"
    and "q_x (quad_nth cs c) = q_x (quad_nth (children_init F q) c)"
    and "q_y (quad_nth cs c) = q_y (quad_nth (children_init F q) c)"
    and "q_w (quad_nth cs c) = q_w (quad_nth (children_init F q) c)"
    and "q_h (quad_nth cs c) = q_h (quad_nth (children_init F q) c)"
    and "H0 = \<infinity> \<longrightarrow> Ha = \<infinity>"
    and "buffer_inv q \<Longrightarrow> stored (quad_nth cs c) = filter (\<lambda>p. quadrant F q p = c) (stored q)"
proof -
  note f = sort_points_frame [OF assms(1) children_init_inv]
  from f assms(2) show "buffer_inv (quad_nth cs c)" by (simp add: pred_quad_nth)
  from f assms(2) show "q_child (quad_nth cs c) = None" by (simp add: children_init_leaf)
  from f assms(2) show "q_x (quad_nth cs c) = q_x (quad_nth (children_init F q) c)"
    and "q_y (quad_nth cs c) = q_y (quad_nth (children_init F q) c)"
    and "q_w (quad_nth cs c) = q_w (quad_nth (children_init F q) c)"
    and "q_h (quad_nth cs c) = q_h (quad_nth (children_init F q) c)"
    by simp_all
  from f show "H0 = \<infinity> \<longrightarrow> Ha = \<infinity>" by simp
  assume "buffer_inv q"
  from sort_points_Inr [OF assms(1) this children_init_inv] assms(2)
  show "stored (quad_nth cs c) = filter (\<lambda>p. quadrant F q p = c) (stored q)"
    by (simp add: children_init_stored)
qed

section \<open>Refinement\<close>

lemma bind_case_Inr:
  assumes "(m \<bind> (\<lambda>r. case r of Inl e \<Rightarrow> Some (Inl e) | Inr (c, H) \<Rightarrow> g c H)) = Some (Inr z)"
  shows "\<exists>c H. m = Some (Inr (c, H)) \<and> g c H = Some (Inr z)"
  using assms by (cases m) (auto split: sum.splits)

lemma refine_induct [consumes 1, case_names keep split]:
  assumes ret: "quadtree_refine F q H = Some (Inr (q', H'))"
    and keep: "\<And>q H. \<not> real (q_size q) > THRESH * real N * real N \<Longrightarrow> P q H q H"
    and split: "\<And>q H H0 cs Ha c0 H1 c1 H2 c2 H3 c3 H4.
      real (q_size q) > THRESH * real N * real N \<Longrightarrow>
      malloc H = Some H0 \<Longrightarrow>
      sort_points F q 0 (children_init F q) H0 = Inr (cs, Ha) \<Longrightarrow>
      P (quad_nth cs 0) Ha c0 H1 \<Longrightarrow> P (quad_nth cs 1) H1 c1 H2 \<Longrightarrow>
      P (quad_nth cs 2) H2 c2 H3 \<Longrightarrow> P (quad_nth cs 3) H3 c3 H4 \<Longrightarrow>
      P q H (Quadtree (q_x q) (q_y q) (q_w q) (q_h q) (Some (Quad c0 c1 c2 c3)) 0 None) H4"
  shows "P q H q' H'"
proof -
  have "F' = F \<longrightarrow> (\<forall>q' H'. y = Inr (q', H') \<longrightarrow> P q H q' H')"
    if "quadtree_refine F' q H = Some y" for F' y q H
    using that
  proof (induction F' q H y rule: quadtree_refine.raw_induct [rotated 1, consumes 1, case_names step])
    case (step f F' q H y)
    show ?case
    proof (intro impI allI)
      fix q' H'
      assume F: "F' = F" and y: "y = Inr (q', H')"
      show "P q H q' H'"
      proof (cases "real (q_size q) > THRESH * real N * real N")
        case False
        with step.hyps y have "q' = q" "H' = H" by simp_all
        with keep [OF False] show ?thesis by simp
      next
        case True
        with step.hyps obtain H0 where H0: "malloc H = Some H0"
          by (cases "malloc H") (simp_all add: y)
        with True step.hyps obtain cs Ha where
          sort: "sort_points F q 0 (children_init F q) H0 = Inr (cs, Ha)"
          by (cases "sort_points F q 0 (children_init F q) H0") (auto simp: y F)
        from True step.hyps H0 sort have
          "(f F (quad_nth cs 0) Ha \<bind> (\<lambda>r0. case r0 of Inl e \<Rightarrow> Some (Inl e) | Inr (c0, H1) \<Rightarrow>
             f F (quad_nth cs 1) H1 \<bind> (\<lambda>r1. case r1 of Inl e \<Rightarrow> Some (Inl e) | Inr (c1, H2) \<Rightarrow>
             f F (quad_nth cs 2) H2 \<bind> (\<lambda>r2. case r2 of Inl e \<Rightarrow> Some (Inl e) | Inr (c2, H3) \<Rightarrow>
             f F (quad_nth cs 3) H3 \<bind> (\<lambda>r3. case r3 of Inl e \<Rightarrow> Some (Inl e) | Inr (c3, H4) \<Rightarrow>
               Some (Inr (Quadtree (q_x q) (q_y q) (q_w q) (q_h q)
                                     (Some (Quad c0 c1 c2 c3)) 0 None, H4))))))) = Some (Inr (q', H'))"
          by (simp only: y F if_True option.case sum.case prod.case)
        from bind_case_Inr [OF this] obtain c0 H1 where
          r0: "f F (quad_nth cs 0) Ha = Some (Inr (c0, H1))" and
          "(f F (quad_nth cs 1) H1 \<bind> (\<lambda>r1. case r1 of Inl e \<Rightarrow> Some (Inl e) | Inr (c1, H2) \<Rightarrow>
             f F (quad_nth cs 2) H2 \<bind> (\<lambda>r2. case r2 of Inl e \<Rightarrow> Some (Inl e) | Inr (c2, H3) \<Rightarrow>
             f F (quad_nth cs 3) H3 \<bind> (\<lambda>r3. case r3 of Inl e \<Rightarrow> Some (Inl e) | Inr (c3, H4) \<Rightarrow>
               Some (Inr (Quadtree (q_x q) (q_y q) (q_w q) (q_h q)
                                     (Some (Quad c0 c1 c2 c3)) 0 None, H4)))))) = Some (Inr (q', H'))"
          by blast
        from bind_case_Inr [OF this(2)] obtain c1 H2 where
          r1: "f F (quad_nth cs 1) H1 = Some (Inr (c1, H2))" and
          "(f F (quad_nth cs 2) H2 \<bind> (\<lambda>r2. case r2 of Inl e \<Rightarrow> Some (Inl e) | Inr (c2, H3) \<Rightarrow>
             f F (quad_nth cs 3) H3 \<bind> (\<lambda>r3. case r3 of Inl e \<Rightarrow> Some (Inl e) | Inr (c3, H4) \<Rightarrow>
               Some (Inr (Quadtree (q_x q) (q_y q) (q_w q) (q_h q)
                                     (Some (Quad c0 c1 c2 c3)) 0 None, H4))))) = Some (Inr (q', H'))"
          by blast
        from bind_case_Inr [OF this(2)] obtain c2 H3 where
          r2: "f F (quad_nth cs 2) H2 = Some (Inr (c2, H3))" and
          "(f F (quad_nth cs 3) H3 \<bind> (\<lambda>r3. case r3 of Inl e \<Rightarrow> Some (Inl e) | Inr (c3, H4) \<Rightarrow>
               Some (Inr (Quadtree (q_x q) (q_y q) (q_w q) (q_h q)
                                     (Some (Quad c0 c1 c2 c3)) 0 None, H4)))) = Some (Inr (q', H'))"
          by blast
        from bind_case_Inr [OF this(2)] obtain c3 H4 where
          r3: "f F (quad_nth cs 3) H3 = Some (Inr (c3, H4))" and
          res: "q' = Quadtree (q_x q) (q_y q) (q_w q) (q_h q) (Some (Quad c0 c1 c2 c3)) 0 None"
            "H' = H4"
          by auto
        show ?thesis
          unfolding res
          using True H0 sort step.IH [OF r0] step.IH [OF r1] step.IH [OF r2]
            step.IH [OF r3]
          by (intro split) simp_all
      qed
    qed
  qed
  from this [OF ret] show ?thesis by simp
qed

lemma malloc_Some: "malloc H = Some H0 \<Longrightarrow> H \<noteq> 0 \<and> H0 = H - 1"
  by (simp add: malloc_def split: if_splits)

lemma refine_frame:
  assumes "quadtree_refine F q H = Some (Inr (q', H'))"
  shows "q_x q' = q_x q \<and> q_y q' = q_y q \<and> q_w q' = q_w q \<and> q_h q' = q_h q
     \<and> (H = \<infinity> \<longrightarrow> H' = \<infinity>)"
  using assms
proof (induction rule: refine_induct)
  case (keep q H)
  show ?case by simp
next
  case (split q H H0 cs Ha c0 H1 c1 H2 c2 H3 c3 H4)
  from malloc_Some [OF split(2)] have "H = \<infinity> \<longrightarrow> H0 = \<infinity>" by auto
  moreover have "H0 = \<infinity> \<longrightarrow> Ha = \<infinity>"
    using sorted_children(7) [OF split(3), of 0] by simp
  ultimately show ?case using split(4-7) by simp
qed

lemma four_cases: "c < (4::nat) \<Longrightarrow> c = 0 \<or> c = 1 \<or> c = 2 \<or> c = 3"
  by arith

lemma child_geometry_init:
  assumes "\<forall>c<4. q_x (quad_nth cs c) = q_x (quad_nth (children_init F q) c)
              \<and> q_y (quad_nth cs c) = q_y (quad_nth (children_init F q) c)
              \<and> q_w (quad_nth cs c) = q_w (quad_nth (children_init F q) c)
              \<and> q_h (quad_nth cs c) = q_h (quad_nth (children_init F q) c)"
    and "q_x n = q_x q" "q_y n = q_y q" "q_w n = q_w q" "q_h n = q_h q"
  shows "child_geometry F n cs"
proof -
  have "q_x (quad_nth cs c) = q_x (quad_nth (children_init F q) c)
      \<and> q_y (quad_nth cs c) = q_y (quad_nth (children_init F q) c)
      \<and> q_w (quad_nth cs c) = q_w (quad_nth (children_init F q) c)
      \<and> q_h (quad_nth cs c) = q_h (quad_nth (children_init F q) c)" if "c < 4" for c
    using assms(1) that by blast
  from this [of 0] this [of 1] this [of 2] this [of 3] show ?thesis
    by (simp add: child_geometry_def children_init_def child_init_def assms(2-5))
qed

lemma refine_leaf_tree_aux:
  assumes "quadtree_refine F q H = Some (Inr (q', H'))"
  shows "(q_x q' = q_x q \<and> q_y q' = q_y q \<and> q_w q' = q_w q \<and> q_h q' = q_h q) \<and>
    (q_child q = None \<longrightarrow>
       (\<forall>l\<in>set (leaves q'). real (q_size l) \<le> THRESH * real N * real N)
     \<and> (\<forall>n\<in>set (nodes q'). exclusive n)
     \<and> (\<forall>n\<in>set (nodes q'). \<forall>cs. q_child n = Some cs \<longrightarrow> child_geometry F n cs))"
  using assms
proof (induction rule: refine_induct)
  case (keep q H)
  then show ?case by (cases q) (simp add: exclusive_def)
next
  case (split q H H0 cs Ha c0 H1 c1 H2 c2 H3 c3 H4)
  note s = sorted_children [OF split(3)]
  have leaf: "q_child (quad_nth cs c) = None" if "c < 4" for c using s(2) that by simp
  let ?q' = "Quadtree (q_x q) (q_y q) (q_w q) (q_h q) (Some (Quad c0 c1 c2 c3)) 0 None"
  have "\<forall>c<4. q_x (quad_nth (Quad c0 c1 c2 c3) c) = q_x (quad_nth (children_init F q) c)
              \<and> q_y (quad_nth (Quad c0 c1 c2 c3) c) = q_y (quad_nth (children_init F q) c)
              \<and> q_w (quad_nth (Quad c0 c1 c2 c3) c) = q_w (quad_nth (children_init F q) c)
              \<and> q_h (quad_nth (Quad c0 c1 c2 c3) c) = q_h (quad_nth (children_init F q) c)"
  proof (intro allI impI)
    fix c :: nat assume "c < 4"
    from four_cases [OF this] show "q_x (quad_nth (Quad c0 c1 c2 c3) c) = q_x (quad_nth (children_init F q) c)
              \<and> q_y (quad_nth (Quad c0 c1 c2 c3) c) = q_y (quad_nth (children_init F q) c)
              \<and> q_w (quad_nth (Quad c0 c1 c2 c3) c) = q_w (quad_nth (children_init F q) c)
              \<and> q_h (quad_nth (Quad c0 c1 c2 c3) c) = q_h (quad_nth (children_init F q) c)"
      using split(4-7) s(3-6) [of 0] s(3-6) [of 1] s(3-6) [of 2] s(3-6) [of 3]
      by (elim disjE) simp_all
  qed
  then have geo: "child_geometry F ?q' (Quad c0 c1 c2 c3)"
    by (rule child_geometry_init) simp_all
  have IH: "(\<forall>l\<in>set (leaves c0). real (q_size l) \<le> THRESH * real N * real N)
     \<and> (\<forall>n\<in>set (nodes c0). exclusive n)
     \<and> (\<forall>n\<in>set (nodes c0). \<forall>cs. q_child n = Some cs \<longrightarrow> child_geometry F n cs)"
    "(\<forall>l\<in>set (leaves c1). real (q_size l) \<le> THRESH * real N * real N)
     \<and> (\<forall>n\<in>set (nodes c1). exclusive n)
     \<and> (\<forall>n\<in>set (nodes c1). \<forall>cs. q_child n = Some cs \<longrightarrow> child_geometry F n cs)"
    "(\<forall>l\<in>set (leaves c2). real (q_size l) \<le> THRESH * real N * real N)
     \<and> (\<forall>n\<in>set (nodes c2). exclusive n)
     \<and> (\<forall>n\<in>set (nodes c2). \<forall>cs. q_child n = Some cs \<longrightarrow> child_geometry F n cs)"
    "(\<forall>l\<in>set (leaves c3). real (q_size l) \<le> THRESH * real N * real N)
     \<and> (\<forall>n\<in>set (nodes c3). exclusive n)
     \<and> (\<forall>n\<in>set (nodes c3). \<forall>cs. q_child n = Some cs \<longrightarrow> child_geometry F n cs)"
    using split(4-7) leaf [of 0] leaf [of 1] leaf [of 2] leaf [of 3] by simp_all
  show ?case
  proof (intro conjI impI)
    show "\<forall>l\<in>set (leaves ?q'). real (q_size l) \<le> THRESH * real N * real N"
      using IH by auto
    show "\<forall>n\<in>set (nodes ?q'). exclusive n"
      using IH by (auto simp: exclusive_def)
    show "\<forall>n\<in>set (nodes ?q'). \<forall>cs. q_child n = Some cs \<longrightarrow> child_geometry F n cs"
      using IH geo by auto
  qed simp_all
qed

lemma mset_quadrants:
  assumes "\<And>p. f p < (4::nat)"
  shows "mset (filter (\<lambda>p. f p = 0) xs) + mset (filter (\<lambda>p. f p = 1) xs)
       + mset (filter (\<lambda>p. f p = 2) xs) + mset (filter (\<lambda>p. f p = 3) xs) = mset xs"
proof (induction xs)
  case Nil
  show ?case by simp
next
  case (Cons p xs)
  from four_cases [OF assms [of p]] Cons show ?case by auto
qed

lemma tree_points_leaf: "q_child q = None \<Longrightarrow> tree_points q = stored q"
  by (cases q) (simp add: tree_points_def)

lemma tree_points_node:
  "tree_points (Quadtree cx cy cw ch (Some (Quad c0 c1 c2 c3)) n pts) =
     tree_points c0 @ tree_points c1 @ tree_points c2 @ tree_points c3"
  by (simp add: tree_points_def)

lemma refine_points:
  assumes "quadtree_refine F q H = Some (Inr (q', H'))" and "buffer_inv q" and "q_child q = None"
  shows "mset (tree_points q') = mset (stored q) \<and> (\<forall>l\<in>set (leaves q'). buffer_inv l)"
  using assms
proof (induction rule: refine_induct)
  case (keep q H)
  then show ?case by (cases q) (simp add: tree_points_def)
next
  case (split q H H0 cs Ha c0 H1 c1 H2 c2 H3 c3 H4)
  note s = sorted_children [OF split(3)]
  have c: "buffer_inv (quad_nth cs c)" "q_child (quad_nth cs c) = None"
    "stored (quad_nth cs c) = filter (\<lambda>p. quadrant F q p = c) (stored q)" if "c < 4" for c
    using s(1,2) s(8) [OF that split.prems(1)] that by simp_all
  note IH = split(4) [OF c(1,2)] split(5) [OF c(1,2)] split(6) [OF c(1,2)] split(7) [OF c(1,2)]
  have "mset (tree_points c0) + mset (tree_points c1) + mset (tree_points c2) + mset (tree_points c3)
      = mset (stored q)"
    using IH c(3) [of 0] c(3) [of 1] c(3) [of 2] c(3) [of 3]
      mset_quadrants [of "quadrant F q" "stored q", OF quadrant_lt]
    by simp
  then show ?case using IH by (auto simp: tree_points_node ac_simps)
qed

lemma refine_keep:
  assumes "\<not> real (q_size q) > THRESH * real N * real N"
  shows "quadtree_refine F q H = Some (Inr (q, H))"
  using assms by (subst quadtree_refine.simps) simp

lemma sort_points_returns:
  assumes "buffer_inv q" and "pred_quad buffer_inv cs" and "q_size q \<le> INT_MAX"
  shows "\<exists>cs'. sort_points F q k cs \<infinity> = Inr (cs', \<infinity>)"
  using assms(2)
proof (induction "q_size q - k" arbitrary: k cs)
  case 0
  then show ?case by (simp add: sort_points.simps [of F q k])
next
  case (Suc m)
  then have k: "k < q_size q" by simp
  from cell_stored [OF assms(1) k] obtain cells where
    cells: "q_points q = Some cells" "k < length cells" "cells ! k = Some (stored q ! k)"
    by blast
  define pk where "pk = stored q ! k"
  define i where "i = quadrant F q pk"
  have i4: "i < 4" by (simp add: i_def quadrant_lt)
  have inv_i: "buffer_inv (quad_nth cs i)"
    using Suc.prems i4 by (simp add: pred_quad_nth)
  from quadtree_add_returns [OF inv_i, of \<infinity> pk] obtain c H1 where
    add: "quadtree_add (quad_nth cs i) pk \<infinity> = Inr (c, H1)" by auto
  note a = quadtree_add_Inr [OF inv_i add]
  from a(5) have H1: "H1 = \<infinity>" by simp
  have inv': "pred_quad buffer_inv (quad_upd cs i c)"
    using Suc.prems a(3) i4 by (simp add: pred_quad_nth quad_nth_upd_lt)
  have "k \<noteq> INT_MAX" using k assms(3) by simp
  moreover have "m = q_size q - (k + 1)" using Suc.hyps(2) by simp
  from Suc.hyps(1) [OF this inv'] obtain cs' where
    "sort_points F q (k + 1) (quad_upd cs i c) \<infinity> = Inr (cs', \<infinity>)" by auto
  ultimately show ?case
    using k cells add H1 by (simp add: sort_points.simps [of F q k] pk_def i_def)
qed

lemma refine_one_level:
  assumes "buffer_inv q" and "real (q_size q) > THRESH * real N * real N" and "q_size q \<le> INT_MAX"
    and "\<And>c. c < 4 \<Longrightarrow>
           real (length (filter (\<lambda>p. quadrant F q p = c) (stored q))) \<le> THRESH * real N * real N"
  shows "\<exists>cs. sort_points F q 0 (children_init F q) \<infinity> = Inr (cs, \<infinity>)
     \<and> quadtree_refine F q \<infinity> =
         Some (Inr (Quadtree (q_x q) (q_y q) (q_w q) (q_h q) (Some cs) 0 None, \<infinity>))"
proof -
  from sort_points_returns [OF assms(1) children_init_inv assms(3)] obtain cs where
    sort: "sort_points F q 0 (children_init F q) \<infinity> = Inr (cs, \<infinity>)" by blast
  note s = sorted_children [OF sort]
  have keep: "quadtree_refine F (quad_nth cs c) \<infinity> = Some (Inr (quad_nth cs c, \<infinity>))" if "c < 4" for c
  proof (rule refine_keep)
    have "q_size (quad_nth cs c) = length (stored (quad_nth cs c))"
      using length_stored [OF s(1) [OF that]] by simp
    with s(8) [OF that assms(1)] assms(4) [OF that]
    show "\<not> real (q_size (quad_nth cs c)) > THRESH * real N * real N" by simp
  qed
  obtain c0 c1 c2 c3 where cs: "cs = Quad c0 c1 c2 c3" by (cases cs)
  have "quadtree_refine F q \<infinity> =
         Some (Inr (Quadtree (q_x q) (q_y q) (q_w q) (q_h q) (Some cs) 0 None, \<infinity>))"
    using assms(2) sort keep [of 0] keep [of 1] keep [of 2] keep [of 3]
    by (subst quadtree_refine.simps) (simp add: malloc_def cs)
  with sort show ?thesis by blast
qed

lemma quadtree_add_child:
  assumes "quadtree_add q p H = Inr (q', H')"
  shows "q_child q' = q_child q"
  using assms
  by (auto simp: quadtree_add_def split: if_splits option.splits sum.splits prod.splits)

lemma nodes_leaf: "q_child q = None \<Longrightarrow> nodes q = [q]"
  by (cases q) simp

lemma leaves_leaf: "q_child q = None \<Longrightarrow> leaves q = [q]"
  by (cases q) simp

lemma refine_exclusive:
  assumes "quadtree_refine F q H = Some (Inr (q', H'))" and "\<forall>n\<in>set (nodes q). exclusive n"
  shows "\<forall>n\<in>set (nodes q'). exclusive n"
proof (cases "q_child q")
  case None
  with refine_leaf_tree_aux [OF assms(1)] show ?thesis by simp
next
  case (Some cs)
  have "q \<in> set (nodes q)" by (cases q rule: nodes.cases) simp_all
  with assms(2) Some have "q_size q = 0" by (auto simp: exclusive_def)
  then have "\<not> real (q_size q) > THRESH * real N * real N" by (simp add: THRESH_def N_def)
  from refine_keep [OF this, of F H] assms show ?thesis by simp
qed

lemma run_ops_exclusive:
  assumes "run_ops F ops q H = Some (Inr (q', H'))" and "leaf_inserts F ops q H"
    and "\<forall>n\<in>set (nodes q). exclusive n"
  shows "\<forall>n\<in>set (nodes q'). exclusive n"
  using assms
proof (induction F ops q H rule: run_ops.induct)
  case (1 F q H)
  then show ?case by simp
next
  case (2 F p ops q H)
  from "2.prems"(1) obtain q1 H1 where add: "quadtree_add q p H = Inr (q1, H1)"
    and rest: "run_ops F ops q1 H1 = Some (Inr (q', H'))"
    by (auto split: sum.splits)
  from "2.prems"(2) add have leaf: "q_child q = None" and li: "leaf_inserts F ops q1 H1"
    by simp_all
  from quadtree_add_child [OF add] leaf have "q_child q1 = None" by simp
  then have "\<forall>n\<in>set (nodes q1). exclusive n" by (simp add: nodes_leaf exclusive_def)
  from "2.IH" [OF add refl rest li this] show ?case .
next
  case (3 F ops q H)
  from "3.prems"(1) obtain q1 H1 where ref: "quadtree_refine F q H = Some (Inr (q1, H1))"
    and rest: "run_ops F ops q1 H1 = Some (Inr (q', H'))"
    by (auto split: option.splits sum.splits)
  from "3.prems"(2) ref have li: "leaf_inserts F ops q1 H1" by simp
  from refine_exclusive [OF ref "3.prems"(3)] have "\<forall>n\<in>set (nodes q1). exclusive n" .
  from "3.IH" [OF ref refl refl rest li this] show ?case .
qed

lemma stored_of_buffer: "buffer q = map Some ps \<Longrightarrow> stored q = ps"
  by (simp add: stored_def comp_def)

lemma filter_replicate_if:
  "filter P (replicate n x) = (if P x then replicate n x else [])"
  by (induction n) simp_all

lemma scenario_root:
  "\<exists>q. insert_all (empty_leaf 1 1 1 1) scenario_points \<infinity> = Inr (q, \<infinity>)
     \<and> buffer_inv q \<and> q_child q = None \<and> q_size q = 150 \<and> stored q = scenario_points
     \<and> q_x q = 1 \<and> q_y q = 1 \<and> q_w q = 1 \<and> q_h q = 1"
proof -
  from insert_all_returns [where q = "empty_leaf (1::real) 1 1 1" and ps = scenario_points,
      OF buffer_inv_empty_leaf] obtain q where
    q: "insert_all (empty_leaf (1::real) 1 1 1) scenario_points \<infinity> = Inr (q, \<infinity>)" by blast
  note a = insert_all_Inr [OF buffer_inv_empty_leaf q]
  have "buffer q = map Some scenario_points" using a by (simp add: buffer_def empty_leaf_def)
  then have "stored q = scenario_points" by (rule stored_of_buffer)
  moreover have "length scenario_points = 150" by (simp add: scenario_points_def)
  ultimately show ?thesis using q a by (auto simp: empty_leaf_def)
qed

lemma scenario_refine:
  assumes "buffer_inv q" and "q_size q = 150" and "stored q = scenario_points"
    and "q_x q = 1" and "q_y q = 1" and "q_w q = 1" and "q_h q = 1"
  shows "\<exists>cs. quadtree_refine exact q \<infinity> = Some (Inr (Quadtree 1 1 1 1 (Some cs) 0 None, \<infinity>))
    \<and> (\<forall>c<4. q_child (quad_nth cs c) = None \<and> buffer_inv (quad_nth cs c)
          \<and> stored (quad_nth cs c) = filter (\<lambda>p. quadrant exact q p = c) scenario_points)"
proof -
  have big: "real (q_size q) > THRESH * real N * real N"
    by (simp add: assms(2) THRESH_def N_def)
  have max: "q_size q \<le> INT_MAX" by (simp add: assms(2) INT_MAX_def)
  have small: "real (length (filter (\<lambda>p. quadrant exact q p = c) (stored q)))
      \<le> THRESH * real N * real N" if "c < 4" for c
    by (simp add: assms(3-5) scenario_points_def quadrant_def exact_def THRESH_def N_def
        filter_replicate_if)
  from refine_one_level [OF assms(1) big max small] obtain cs where
    sort: "sort_points exact q 0 (children_init exact q) \<infinity> = Inr (cs, \<infinity>)"
    and ref: "quadtree_refine exact q \<infinity> =
         Some (Inr (Quadtree (q_x q) (q_y q) (q_w q) (q_h q) (Some cs) 0 None, \<infinity>))"
    by blast
  note s = sorted_children [OF sort]
  show ?thesis
    using ref s(1,2) s(8) [OF _ assms(1)] by (auto simp: assms)
qed

text \<open>
  Claim C6 (refinement at or below the threshold is a no-op). When the count of a node
  is at most \<open>THRESH*N*N\<close>, \<^verbatim>\<open>quadtree_refine\<close> returns, and it returns the node as it
  was: the same centre, extent, child pointer, count and block; the allocator is not
  called. The witness is a root with 50 points: it is still one leaf with count 50.
\<close>

theorem refine_below_threshold:
  assumes "real (q_size q) \<le> THRESH * real N * real N"
  shows "quadtree_refine F q H = Some (Inr (q, H))"
  using assms by (subst quadtree_refine.simps) simp

theorem refine_below_threshold_witness:
  "\<exists>q. insert_all (root_init exact 0) (replicate 50 \<lparr>p_x = 1.2, p_y = 0.8\<rparr>) \<infinity> = Inr (q, \<infinity>)
     \<and> q_size q = 50 \<and> real (q_size q) \<le> THRESH * real N * real N
     \<and> quadtree_refine exact q \<infinity> = Some (Inr (q, \<infinity>))
     \<and> quadtree_apply_leaves q record_leaf [] = [q]"
proof -
  have inv: "buffer_inv (root_init exact 0)"
    by (simp add: root_init_def buffer_inv_def capacity_def buffer_def N_pos)
  from insert_all_returns [OF inv] obtain q where
    q: "insert_all (root_init exact 0) (replicate 50 \<lparr>p_x = 1.2, p_y = 0.8\<rparr>) \<infinity> = Inr (q, \<infinity>)"
    by blast
  from insert_all_Inr [OF inv q] have size: "q_size q = 50" and leaf: "q_child q = None"
    by (simp_all add: root_init_def)
  have le: "real (q_size q) \<le> THRESH * real N * real N"
    by (simp add: size THRESH_def N_def)
  from refine_below_threshold [OF le, of exact \<infinity>] q size le leaf show ?thesis
    by (simp add: apply_leaves_leaf record_leaf_def)
qed

section \<open>Traversal\<close>

lemma apply_leaves_fold: "quadtree_apply_leaves q f s = fold f (leaves q) s"
  by (induction q f s rule: quadtree_apply_leaves.induct) simp_all

lemma leaves_subtree: "leaves q = map (\<lambda>p. the (subtree q p)) (leaf_paths q)"
  by (induction q rule: leaves.induct) (simp_all add: comp_def)

lemma leaf_paths_set:
  "set (leaf_paths q) = {p. \<exists>n. subtree q p = Some n \<and> q_child n = None}"
proof (induction q rule: leaf_paths.induct)
  case (1 x y w h c0 c1 c2 c3 n pts)
  show ?case
  proof (rule set_eqI)
    fix p
    show "p \<in> set (leaf_paths (Quadtree x y w h (Some (Quad c0 c1 c2 c3)) n pts)) \<longleftrightarrow>
          p \<in> {p. \<exists>m. subtree (Quadtree x y w h (Some (Quad c0 c1 c2 c3)) n pts) p = Some m \<and> q_child m = None}"
    proof (cases p)
      case Nil
      then show ?thesis by auto
    next
      case (Cons k ks)
      then show ?thesis using 1 by (auto split: if_splits)
    qed
  qed
next
  case (2 x y w h n pts)
  show ?case
  proof (rule set_eqI)
    fix p
    show "p \<in> set (leaf_paths (Quadtree x y w h None n pts)) \<longleftrightarrow>
          p \<in> {p. \<exists>m. subtree (Quadtree x y w h None n pts) p = Some m \<and> q_child m = None}"
      by (cases p) auto
  qed
qed

lemma sorted_wrt_map_Cons:
  "sorted_wrt (<) (map ((#) (k::nat)) ps) = sorted_wrt (<) ps"
  by (simp add: sorted_wrt_map)

lemma leaf_paths_sorted: "sorted_wrt (<) (leaf_paths q)"
  by (induction q rule: leaf_paths.induct)
     (auto simp: sorted_wrt_append sorted_wrt_map)

lemma leaf_paths_distinct: "distinct (leaf_paths q)"
  using leaf_paths_sorted [of q] strict_sorted_iff by blast

lemma fold_record_leaf: "fold record_leaf xs s = s @ xs"
  by (induction xs arbitrary: s) (simp_all add: record_leaf_def)

lemma fold_count_points: "fold count_points xs s = s + sum_list (map q_size xs)"
  by (induction xs arbitrary: s) (simp_all add: count_points_def)

lemma apply_leaves_record: "quadtree_apply_leaves q record_leaf [] = leaves q"
  by (simp add: apply_leaves_fold fold_record_leaf)

lemma apply_leaves_count: "quadtree_apply_leaves q count_points 0 = sum_list (map q_size (leaves q))"
  by (simp add: apply_leaves_fold fold_count_points)

lemma sum_sizes:
  assumes "\<forall>l\<in>set ls. buffer_inv l"
  shows "sum_list (map q_size ls) = length (concat (map stored ls))"
  using assms by (induction ls) (simp_all add: length_stored)

lemma insert_all_leaf:
  assumes "insert_all (empty_leaf cx cy cw ch) ps H0 = Inr (q, H)"
  shows "buffer_inv q" and "q_child q = None" and "stored q = ps" and "q_size q = length ps"
    and "q_x q = cx" and "q_y q = cy" and "q_w q = cw" and "q_h q = ch"
proof -
  note a = insert_all_Inr [OF buffer_inv_empty_leaf assms]
  from a show "buffer_inv q" and "q_child q = None" and "q_size q = length ps"
    and "q_x q = cx" and "q_y q = cy" and "q_w q = cw" and "q_h q = ch"
    by (simp_all add: empty_leaf_def)
  have "buffer q = map Some ps" using a by (simp add: buffer_def empty_leaf_def)
  then show "stored q = ps" by (rule stored_of_buffer)
qed

lemma scenario_leaves:
  assumes "\<forall>c<4. q_child (quad_nth cs c) = None \<and> buffer_inv (quad_nth cs c)
          \<and> stored (quad_nth cs c) = filter (\<lambda>p. quadrant exact q p = c) scenario_points"
    and "q_x q = 1" and "q_y q = 1"
  shows "leaves (Quadtree cx cy cw ch (Some cs) n pts) =
           [quad_nth cs 0, quad_nth cs 1, quad_nth cs 2, quad_nth cs 3]"
    and "map q_size (leaves (Quadtree cx cy cw ch (Some cs) n pts)) = [38, 38, 37, 37]"
    and "nodes (Quadtree cx cy cw ch (Some cs) n pts) =
           [Quadtree cx cy cw ch (Some cs) n pts,
            quad_nth cs 0, quad_nth cs 1, quad_nth cs 2, quad_nth cs 3]"
proof -
  have c: "q_child (quad_nth cs c) = None" "buffer_inv (quad_nth cs c)"
    "stored (quad_nth cs c) = filter (\<lambda>p. quadrant exact q p = c) scenario_points"
    if "c < 4" for c using assms(1) that by simp_all
  obtain c0 c1 c2 c3 where cs: "cs = Quad c0 c1 c2 c3" by (cases cs)
  show l: "leaves (Quadtree cx cy cw ch (Some cs) n pts) =
           [quad_nth cs 0, quad_nth cs 1, quad_nth cs 2, quad_nth cs 3]"
    using c(1) [of 0] c(1) [of 1] c(1) [of 2] c(1) [of 3] by (simp add: cs leaves_leaf)
  show "nodes (Quadtree cx cy cw ch (Some cs) n pts) =
           [Quadtree cx cy cw ch (Some cs) n pts,
            quad_nth cs 0, quad_nth cs 1, quad_nth cs 2, quad_nth cs 3]"
    using c(1) [of 0] c(1) [of 1] c(1) [of 2] c(1) [of 3] by (simp add: cs nodes_leaf)
  have "q_size (quad_nth cs c) = length (filter (\<lambda>p. quadrant exact q p = c) scenario_points)"
    if "c < 4" for c
    using length_stored [OF c(2) [OF that]] c(3) [OF that] by simp
  from this [of 0] this [of 1] this [of 2] this [of 3]
  show "map q_size (leaves (Quadtree cx cy cw ch (Some cs) n pts)) = [38, 38, 37, 37]"
    unfolding l
    by (simp add: assms(2,3) scenario_points_def quadrant_def exact_def filter_replicate_if)
qed

subsection \<open>The order of the traversal\<close>

text \<open>
  Claim C7 (traversal order, every leaf exactly once). For every tree, callback and
  initial state, \<^verbatim>\<open>quadtree_apply_leaves\<close> calls the callback on the leaves of the tree in
  the order of section 4.4 (\<open>leaves\<close>: children 0, 1, 2, 3 of every internal node in
  turn) and on nothing else. That list holds every leaf position of the tree once: it
  is the list of the nodes at the paths \<open>leaf_paths\<close>, which are pairwise distinct, are
  exactly the paths that end in a leaf, and come in lexicographic order of the child
  indices. A second traversal of the same tree visits the same sequence again.
\<close>

theorem apply_leaves_traversal:
  "quadtree_apply_leaves q f s = fold f (leaves q) s
   \<and> leaves q = map (\<lambda>p. the (subtree q p)) (leaf_paths q)
   \<and> set (leaf_paths q) = {p. \<exists>n. subtree q p = Some n \<and> q_child n = None}
   \<and> distinct (leaf_paths q)
   \<and> sorted_wrt (<) (leaf_paths q)
   \<and> quadtree_apply_leaves q record_leaf [] = leaves q
   \<and> quadtree_apply_leaves q record_leaf (quadtree_apply_leaves q record_leaf [])
        = leaves q @ leaves q"
proof (intro conjI)
  show "quadtree_apply_leaves q f s = fold f (leaves q) s" by (rule apply_leaves_fold)
  show "leaves q = map (\<lambda>p. the (subtree q p)) (leaf_paths q)" by (rule leaves_subtree)
  show "set (leaf_paths q) = {p. \<exists>n. subtree q p = Some n \<and> q_child n = None}"
    by (rule leaf_paths_set)
  show "distinct (leaf_paths q)" by (rule leaf_paths_distinct)
  show "sorted_wrt (<) (leaf_paths q)" by (rule leaf_paths_sorted)
  show "quadtree_apply_leaves q record_leaf [] = leaves q"
    by (simp add: apply_leaves_fold fold_record_leaf)
  show "quadtree_apply_leaves q record_leaf (quadtree_apply_leaves q record_leaf [])
        = leaves q @ leaves q"
    by (simp add: apply_leaves_fold fold_record_leaf)
qed

theorem apply_leaves_traversal_witness:
  "quadtree_apply_leaves
     (Quadtree 0 0 0 0 (Some (Quad (labelled_leaf 1)
        (Quadtree 2 0 0 0 (Some (Quad (labelled_leaf 3) (labelled_leaf 4) (labelled_leaf 5)
           (labelled_leaf 6))) 0 None)
        (labelled_leaf 7) (labelled_leaf 8))) 0 None)
     count_points 0 = 34
   \<and> leaf_paths
     (Quadtree 0 0 0 0 (Some (Quad (labelled_leaf 1)
        (Quadtree 2 0 0 0 (Some (Quad (labelled_leaf 3) (labelled_leaf 4) (labelled_leaf 5)
           (labelled_leaf 6))) 0 None)
        (labelled_leaf 7) (labelled_leaf 8))) 0 None)
     = [[0], [1, 0], [1, 1], [1, 2], [1, 3], [2], [3]]
   \<and> quadtree_apply_leaves
     (Quadtree 0 0 0 0 (Some (Quad (labelled_leaf 1)
        (Quadtree 2 0 0 0 (Some (Quad (labelled_leaf 3) (labelled_leaf 4) (labelled_leaf 5)
           (labelled_leaf 6))) 0 None)
        (labelled_leaf 7) (labelled_leaf 8))) 0 None)
     record_leaf [] =
       [labelled_leaf 1, labelled_leaf 3, labelled_leaf 4, labelled_leaf 5, labelled_leaf 6,
        labelled_leaf 7, labelled_leaf 8]"
  using apply_leaves_traversal [of "Quadtree 0 0 0 0 (Some (Quad (labelled_leaf 1)
        (Quadtree 2 0 0 0 (Some (Quad (labelled_leaf 3) (labelled_leaf 4) (labelled_leaf 5)
           (labelled_leaf 6))) 0 None)
        (labelled_leaf 7) (labelled_leaf 8))) 0 None" count_points 0]
  by (simp add: labelled_leaf_def count_points_def)

section \<open>What the refinement returns\<close>

text \<open>
  Claim C1 (partition conservation). Whatever points are inserted, by successive calls
  of \<^verbatim>\<open>quadtree_add\<close>, into a node created empty, and whatever the arithmetic and the
  allocator: when \<^verbatim>\<open>quadtree_refine\<close> returns on that node, the counts of the leaves that
  \<^verbatim>\<open>quadtree_apply_leaves\<close> visits add up to the number of inserted points, the points
  stored in those leaves are, as a multiset, the inserted points (none lost, none
  duplicated), and the count of each leaf is the number of points it stores. The
  witness is the scenario of section 8: 150 points, four leaves with 38, 38, 37 and 37.
\<close>

theorem refine_conserves_points:
  assumes "insert_all (empty_leaf cx cy cw ch) ps H0 = Inr (q, H)"
    and "quadtree_refine F q H = Some (Inr (q', H'))"
  shows "quadtree_apply_leaves q' count_points 0 = length ps
     \<and> mset (concat (map stored (quadtree_apply_leaves q' record_leaf []))) = mset ps
     \<and> list_all (\<lambda>l. q_size l = length (stored l)) (quadtree_apply_leaves q' record_leaf [])"
proof -
  note a = insert_all_leaf [OF assms(1)]
  from refine_points [OF assms(2) a(1,2)] a(3) have
    m: "mset (tree_points q') = mset ps" and inv: "\<forall>l\<in>set (leaves q'). buffer_inv l"
    by simp_all
  from m have "length (tree_points q') = length ps" by (rule mset_eq_length)
  with sum_sizes [OF inv] have "sum_list (map q_size (leaves q')) = length ps"
    by (simp add: tree_points_def)
  moreover have "list_all (\<lambda>l. q_size l = length (stored l)) (leaves q')"
    using inv by (simp add: list_all_iff length_stored)
  ultimately show ?thesis
    using m by (simp add: apply_leaves_record apply_leaves_count tree_points_def)
qed

theorem refine_conserves_points_witness:
  "\<exists>q q'. insert_all (empty_leaf 1 1 1 1) scenario_points \<infinity> = Inr (q, \<infinity>)
     \<and> quadtree_refine exact q \<infinity> = Some (Inr (q', \<infinity>))
     \<and> quadtree_apply_leaves q' count_points 0 = 150
     \<and> map q_size (quadtree_apply_leaves q' record_leaf []) = [38, 38, 37, 37]"
proof -
  from scenario_root obtain q where
    ins: "insert_all (empty_leaf 1 1 1 1) scenario_points \<infinity> = Inr (q, \<infinity>)"
    and q: "buffer_inv q" "q_size q = 150" "stored q = scenario_points"
      "q_x q = 1" "q_y q = 1" "q_w q = 1" "q_h q = 1"
    by blast
  from scenario_refine [OF q] obtain cs where
    ref: "quadtree_refine exact q \<infinity> = Some (Inr (Quadtree 1 1 1 1 (Some cs) 0 None, \<infinity>))"
    and cs: "\<forall>c<4. q_child (quad_nth cs c) = None \<and> buffer_inv (quad_nth cs c)
          \<and> stored (quad_nth cs c) = filter (\<lambda>p. quadrant exact q p = c) scenario_points"
    by blast
  have "length scenario_points = 150" by (simp add: scenario_points_def)
  with refine_conserves_points [OF ins ref] ins ref scenario_leaves(2) [OF cs q(4,5)]
  show ?thesis by (simp add: apply_leaves_record)
qed

lemma run_ops_inserts:
  "run_ops F (map Insert ps @ ops) q H =
     (case insert_all q ps H of Inl e \<Rightarrow> Some (Inl e) | Inr (q', H') \<Rightarrow> run_ops F ops q' H')"
  by (induction ps arbitrary: q H) (simp_all split: sum.splits)

lemma leaf_inserts_inserts:
  assumes "q_child q = None"
  shows "leaf_inserts F (map Insert ps @ ops) q H =
     (case insert_all q ps H of Inl e \<Rightarrow> True | Inr (q', H') \<Rightarrow> leaf_inserts F ops q' H')"
  using assms
proof (induction ps arbitrary: q H)
  case Nil
  show ?case by simp
next
  case (Cons p ps)
  show ?case
  proof (cases "quadtree_add q p H")
    case (Inl e)
    with Cons.prems show ?thesis by simp
  next
    case (Inr r)
    obtain q1 H1 where r: "r = (q1, H1)" by (cases r)
    from quadtree_add_child [OF Inr [unfolded r]] Cons.prems have "q_child q1 = None" by simp
    from Cons.IH [OF this] Inr r Cons.prems show ?thesis by simp
  qed
qed

lemma refine_split_root:
  assumes "quadtree_refine F q H = Some (Inr (q', H'))"
    and "real (q_size q) > THRESH * real N * real N"
  shows "q_child q' \<noteq> None \<and> q_size q' = 0 \<and> q_points q' = None"
  using assms by (induction rule: refine_induct) simp_all

text \<open>
  Claim C5 (leaf bound). When \<^verbatim>\<open>quadtree_refine\<close> returns on a node in leaf state (the
  state section 4.3 of the specification applies it to), every leaf that
  \<^verbatim>\<open>quadtree_apply_leaves\<close> then visits in the resulting tree has a count of at most
  \<open>THRESH*N*N\<close>, that is at most 100; for every arithmetic and every allocator.
\<close>

theorem refine_leaf_bound:
  assumes "quadtree_refine F q H = Some (Inr (q', H'))" and "q_child q = None"
  shows "list_all (\<lambda>l. real (q_size l) \<le> THRESH * real N * real N \<and> q_size l \<le> 100)
           (quadtree_apply_leaves q' record_leaf [])"
proof -
  from refine_leaf_tree_aux [OF assms(1)] assms(2)
  have "\<forall>l\<in>set (leaves q'). real (q_size l) \<le> THRESH * real N * real N" by simp
  then show ?thesis
    by (simp add: apply_leaves_record list_all_iff THRESH_def N_def)
qed

theorem refine_leaf_bound_witness:
  "\<exists>q q'. insert_all (empty_leaf 1 1 1 1) scenario_points \<infinity> = Inr (q, \<infinity>)
     \<and> q_size q = 150 \<and> q_child q = None
     \<and> quadtree_refine exact q \<infinity> = Some (Inr (q', \<infinity>))
     \<and> length (quadtree_apply_leaves q' record_leaf []) = 4
     \<and> list_all (\<lambda>l. real (q_size l) \<le> THRESH * real N * real N \<and> q_size l \<le> 100)
           (quadtree_apply_leaves q' record_leaf [])"
proof -
  from scenario_root obtain q where
    ins: "insert_all (empty_leaf 1 1 1 1) scenario_points \<infinity> = Inr (q, \<infinity>)"
    and leaf: "q_child q = None"
    and q: "buffer_inv q" "q_size q = 150" "stored q = scenario_points"
      "q_x q = 1" "q_y q = 1" "q_w q = 1" "q_h q = 1"
    by blast
  from scenario_refine [OF q] obtain cs where
    ref: "quadtree_refine exact q \<infinity> = Some (Inr (Quadtree 1 1 1 1 (Some cs) 0 None, \<infinity>))"
    and cs: "\<forall>c<4. q_child (quad_nth cs c) = None \<and> buffer_inv (quad_nth cs c)
          \<and> stored (quad_nth cs c) = filter (\<lambda>p. quadrant exact q p = c) scenario_points"
    by blast
  from refine_leaf_bound [OF ref leaf] ins ref leaf q(2) scenario_leaves(1) [OF cs q(4,5)]
  show ?thesis by (simp add: apply_leaves_record)
qed

text \<open>
  Claim C8 (exclusivity). Start from a node created empty and apply any sequence of
  insertions and refinements to it in which each insertion meets the node in leaf
  state, as section 4.2 of the specification requires of an insertion. When the
  sequence returns, every node of the resulting tree is a leaf (no children) or has its
  count at zero and its block released. The refinement establishes it: the node it
  subdivides comes back with children, count zero and no block.
\<close>

theorem exclusivity:
  assumes "run_ops F ops (empty_leaf cx cy cw ch) H = Some (Inr (q, H'))"
    and "leaf_inserts F ops (empty_leaf cx cy cw ch) H"
  shows "list_all exclusive (nodes q)
     \<and> (\<forall>q0 H0 q1 H1. quadtree_refine F q0 H0 = Some (Inr (q1, H1))
           \<longrightarrow> real (q_size q0) > THRESH * real N * real N
           \<longrightarrow> q_child q1 \<noteq> None \<and> q_size q1 = 0 \<and> q_points q1 = None)"
proof -
  have "\<forall>n\<in>set (nodes (empty_leaf cx cy cw ch)). exclusive n"
    by (simp add: empty_leaf_def exclusive_def)
  from run_ops_exclusive [OF assms this] have "list_all exclusive (nodes q)"
    by (simp add: list_all_iff)
  moreover have "\<forall>q0 H0 q1 H1. quadtree_refine F q0 H0 = Some (Inr (q1, H1))
           \<longrightarrow> real (q_size q0) > THRESH * real N * real N
           \<longrightarrow> q_child q1 \<noteq> None \<and> q_size q1 = 0 \<and> q_points q1 = None"
    by (intro allI impI) (rule refine_split_root)
  ultimately show ?thesis by (rule conjI)
qed

theorem exclusivity_witness:
  "\<exists>q. run_ops exact (map Insert scenario_points @ [Refine]) (empty_leaf 1 1 1 1) \<infinity>
          = Some (Inr (q, \<infinity>))
     \<and> leaf_inserts exact (map Insert scenario_points @ [Refine]) (empty_leaf 1 1 1 1) \<infinity>
     \<and> length (nodes q) = 5 \<and> q_child q \<noteq> None \<and> q_size q = 0 \<and> q_points q = None
     \<and> list_all exclusive (nodes q)"
proof -
  from scenario_root obtain q where
    ins: "insert_all (empty_leaf 1 1 1 1) scenario_points \<infinity> = Inr (q, \<infinity>)"
    and leaf: "q_child q = None"
    and q: "buffer_inv q" "q_size q = 150" "stored q = scenario_points"
      "q_x q = 1" "q_y q = 1" "q_w q = 1" "q_h q = 1"
    by blast
  from scenario_refine [OF q] obtain cs where
    ref: "quadtree_refine exact q \<infinity> = Some (Inr (Quadtree 1 1 1 1 (Some cs) 0 None, \<infinity>))"
    and cs: "\<forall>c<4. q_child (quad_nth cs c) = None \<and> buffer_inv (quad_nth cs c)
          \<and> stored (quad_nth cs c) = filter (\<lambda>p. quadrant exact q p = c) scenario_points"
    by blast
  have run: "run_ops exact (map Insert scenario_points @ [Refine]) (empty_leaf 1 1 1 1) \<infinity>
          = Some (Inr (Quadtree 1 1 1 1 (Some cs) 0 None, \<infinity>))"
    by (simp add: run_ops_inserts ins ref)
  have li: "leaf_inserts exact (map Insert scenario_points @ [Refine]) (empty_leaf 1 1 1 1) \<infinity>"
  proof -
    have "q_child (empty_leaf (1::real) 1 1 1) = None" by (simp add: empty_leaf_def)
    from leaf_inserts_inserts [OF this] show ?thesis by (simp add: ins ref)
  qed
  from exclusivity [OF run li] run li scenario_leaves(3) [OF cs q(4,5)]
  show ?thesis by simp
qed

section \<open>Geometry\<close>












lemma refine_split_cases:
  assumes ret: "quadtree_refine F q H = Some (Inr (q', H'))"
    and big: "real (q_size q) > THRESH * real N * real N"
  shows "\<exists>H0 cs Ha c0 H1 c1 H2 c2 H3 c3.
      malloc H = Some H0
    \<and> sort_points F q 0 (children_init F q) H0 = Inr (cs, Ha)
    \<and> quadtree_refine F (quad_nth cs 0) Ha = Some (Inr (c0, H1))
    \<and> quadtree_refine F (quad_nth cs 1) H1 = Some (Inr (c1, H2))
    \<and> quadtree_refine F (quad_nth cs 2) H2 = Some (Inr (c2, H3))
    \<and> quadtree_refine F (quad_nth cs 3) H3 = Some (Inr (c3, H'))
    \<and> q' = Quadtree (q_x q) (q_y q) (q_w q) (q_h q) (Some (Quad c0 c1 c2 c3)) 0 None"
proof -
  note body = ret [unfolded quadtree_refine.simps [of F q H]]
  from big body obtain H0 where H0: "malloc H = Some H0"
    by (cases "malloc H") simp_all
  with big body obtain cs Ha where
    sort: "sort_points F q 0 (children_init F q) H0 = Inr (cs, Ha)"
    by (cases "sort_points F q 0 (children_init F q) H0") auto
  from big body H0 sort have
    "(quadtree_refine F (quad_nth cs 0) Ha \<bind> (\<lambda>r0. case r0 of Inl e \<Rightarrow> Some (Inl e) | Inr (c0, H1) \<Rightarrow>
       quadtree_refine F (quad_nth cs 1) H1 \<bind> (\<lambda>r1. case r1 of Inl e \<Rightarrow> Some (Inl e) | Inr (c1, H2) \<Rightarrow>
       quadtree_refine F (quad_nth cs 2) H2 \<bind> (\<lambda>r2. case r2 of Inl e \<Rightarrow> Some (Inl e) | Inr (c2, H3) \<Rightarrow>
       quadtree_refine F (quad_nth cs 3) H3 \<bind> (\<lambda>r3. case r3 of Inl e \<Rightarrow> Some (Inl e) | Inr (c3, H4) \<Rightarrow>
         Some (Inr (Quadtree (q_x q) (q_y q) (q_w q) (q_h q)
                               (Some (Quad c0 c1 c2 c3)) 0 None, H4))))))) = Some (Inr (q', H'))"
    by (simp only: if_True option.case sum.case prod.case)
  from bind_case_Inr [OF this] obtain c0 H1 where
    r0: "quadtree_refine F (quad_nth cs 0) Ha = Some (Inr (c0, H1))" and
    "(quadtree_refine F (quad_nth cs 1) H1 \<bind> (\<lambda>r1. case r1 of Inl e \<Rightarrow> Some (Inl e) | Inr (c1, H2) \<Rightarrow>
       quadtree_refine F (quad_nth cs 2) H2 \<bind> (\<lambda>r2. case r2 of Inl e \<Rightarrow> Some (Inl e) | Inr (c2, H3) \<Rightarrow>
       quadtree_refine F (quad_nth cs 3) H3 \<bind> (\<lambda>r3. case r3 of Inl e \<Rightarrow> Some (Inl e) | Inr (c3, H4) \<Rightarrow>
         Some (Inr (Quadtree (q_x q) (q_y q) (q_w q) (q_h q)
                               (Some (Quad c0 c1 c2 c3)) 0 None, H4)))))) = Some (Inr (q', H'))"
    by blast
  from bind_case_Inr [OF this(2)] obtain c1 H2 where
    r1: "quadtree_refine F (quad_nth cs 1) H1 = Some (Inr (c1, H2))" and
    "(quadtree_refine F (quad_nth cs 2) H2 \<bind> (\<lambda>r2. case r2 of Inl e \<Rightarrow> Some (Inl e) | Inr (c2, H3) \<Rightarrow>
       quadtree_refine F (quad_nth cs 3) H3 \<bind> (\<lambda>r3. case r3 of Inl e \<Rightarrow> Some (Inl e) | Inr (c3, H4) \<Rightarrow>
         Some (Inr (Quadtree (q_x q) (q_y q) (q_w q) (q_h q)
                               (Some (Quad c0 c1 c2 c3)) 0 None, H4))))) = Some (Inr (q', H'))"
    by blast
  from bind_case_Inr [OF this(2)] obtain c2 H3 where
    r2: "quadtree_refine F (quad_nth cs 2) H2 = Some (Inr (c2, H3))" and
    "(quadtree_refine F (quad_nth cs 3) H3 \<bind> (\<lambda>r3. case r3 of Inl e \<Rightarrow> Some (Inl e) | Inr (c3, H4) \<Rightarrow>
         Some (Inr (Quadtree (q_x q) (q_y q) (q_w q) (q_h q)
                               (Some (Quad c0 c1 c2 c3)) 0 None, H4)))) = Some (Inr (q', H'))"
    by blast
  from bind_case_Inr [OF this(2)] obtain c3 H4 where
    r3: "quadtree_refine F (quad_nth cs 3) H3 = Some (Inr (c3, H4))" and
    res: "q' = Quadtree (q_x q) (q_y q) (q_w q) (q_h q) (Some (Quad c0 c1 c2 c3)) 0 None"
      "H' = H4"
    by auto
  from H0 sort r0 r1 r2 r3 res show ?thesis by blast
qed

lemma refine_children_points:
  assumes ret: "quadtree_refine F q H = Some (Inr (q', H'))"
    and big: "real (q_size q) > THRESH * real N * real N"
    and inv: "buffer_inv q"
  shows "\<exists>cs'. q_child q' = Some cs' \<and>
     (\<forall>c<4. mset (tree_points (quad_nth cs' c)) = mset (filter (\<lambda>p. quadrant F q p = c) (stored q)))"
proof -
  from refine_split_cases [OF ret big] obtain H0 cs Ha c0 H1 c1 H2 c2 H3 c3 where
    sort: "sort_points F q 0 (children_init F q) H0 = Inr (cs, Ha)"
    and r: "quadtree_refine F (quad_nth cs 0) Ha = Some (Inr (c0, H1))"
      "quadtree_refine F (quad_nth cs 1) H1 = Some (Inr (c1, H2))"
      "quadtree_refine F (quad_nth cs 2) H2 = Some (Inr (c2, H3))"
      "quadtree_refine F (quad_nth cs 3) H3 = Some (Inr (c3, H'))"
    and q': "q' = Quadtree (q_x q) (q_y q) (q_w q) (q_h q) (Some (Quad c0 c1 c2 c3)) 0 None"
    by blast
  note s = sorted_children [OF sort]
  have c: "buffer_inv (quad_nth cs c)" "q_child (quad_nth cs c) = None"
    "stored (quad_nth cs c) = filter (\<lambda>p. quadrant F q p = c) (stored q)" if "c < 4" for c
    using s(1,2) s(8) [OF that inv] that by simp_all
  have m: "mset (tree_points c0) = mset (filter (\<lambda>p. quadrant F q p = 0) (stored q))"
    "mset (tree_points c1) = mset (filter (\<lambda>p. quadrant F q p = 1) (stored q))"
    "mset (tree_points c2) = mset (filter (\<lambda>p. quadrant F q p = 2) (stored q))"
    "mset (tree_points c3) = mset (filter (\<lambda>p. quadrant F q p = 3) (stored q))"
    using refine_points [OF r(1) c(1,2)] refine_points [OF r(2) c(1,2)]
      refine_points [OF r(3) c(1,2)] refine_points [OF r(4) c(1,2)]
      c(3) [of 0] c(3) [of 1] c(3) [of 2] c(3) [of 3]
    by simp_all
  have "\<forall>c<4. mset (tree_points (quad_nth (Quad c0 c1 c2 c3) c))
      = mset (filter (\<lambda>p. quadrant F q p = c) (stored q))"
  proof (intro allI impI)
    fix c :: nat assume "c < 4"
    from four_cases [OF this] m show "mset (tree_points (quad_nth (Quad c0 c1 c2 c3) c))
      = mset (filter (\<lambda>p. quadrant F q p = c) (stored q))"
      by (elim disjE) simp_all
  qed
  then show ?thesis by (simp add: q')
qed

section \<open>The quadrant of a point\<close>

text \<open>
  Claim C4 (deterministic quadrant assignment). When the redistribution loop of lines
  144-152 returns, the child at index \<open>c\<close> holds, in their order, exactly the points
  \<open>p\<close> of the node's buffer with \<open>quadrant p = c\<close>, so every point went to one child
  and to no other; \<open>quadrant p\<close> is \<open>j*2 + i\<close> with \<open>i = 1\<close> if \<open>p.x > node.x\<close> and \<open>0\<close>
  otherwise, \<open>j = 1\<close> if \<open>p.y > node.y\<close> and \<open>0\<close> otherwise: a function of the two
  comparisons alone. In exact arithmetic a point with \<open>p.x = node.x\<close> has \<open>i = 0\<close> and
  one with \<open>p.y = node.y\<close> has \<open>j = 0\<close>. After the whole refinement the subtree of the
  child \<open>c\<close> holds those same points. The loop does return when no allocation fails and
  the count is within \<open>INT_MAX\<close>.
\<close>

theorem quadrant_assignment:
  assumes "buffer_inv q" and "sort_points F q 0 (children_init F q) H = Inr (cs, H')"
  shows "(\<forall>c<4. stored (quad_nth cs c) = filter (\<lambda>p. quadrant F q p = c) (stored q))
    \<and> (\<forall>p. quadrant F q p =
          (if fp_gt F (p_y p) (q_y q) then 1 else 0) * 2 + (if fp_gt F (p_x p) (q_x q) then 1 else 0)
         \<and> quadrant F q p < 4)
    \<and> (\<forall>(n :: real quadtree) p.
          (p_x p = q_x n \<longrightarrow> quadrant exact n p = (if p_y p > q_y n then 2 else 0))
        \<and> (p_y p = q_y n \<longrightarrow> quadrant exact n p = (if p_x p > q_x n then 1 else 0)))
    \<and> (\<forall>q' H0 H1. quadtree_refine F q H0 = Some (Inr (q', H1))
          \<longrightarrow> real (q_size q) > THRESH * real N * real N
          \<longrightarrow> (\<exists>cs'. q_child q' = Some cs' \<and>
                (\<forall>c<4. mset (tree_points (quad_nth cs' c))
                        = mset (filter (\<lambda>p. quadrant F q p = c) (stored q)))))
    \<and> (q_size q \<le> INT_MAX \<longrightarrow>
          (\<exists>cs'. sort_points F q 0 (children_init F q) \<infinity> = Inr (cs', \<infinity>)))"
proof (intro conjI)
  show "q_size q \<le> INT_MAX \<longrightarrow>
          (\<exists>cs'. sort_points F q 0 (children_init F q) \<infinity> = Inr (cs', \<infinity>))"
    using sort_points_returns [OF assms(1) children_init_inv] by blast
  from sorted_children(8) [OF assms(2) _ assms(1)]
  show "\<forall>c<4. stored (quad_nth cs c) = filter (\<lambda>p. quadrant F q p = c) (stored q)" by simp
  show "\<forall>p. quadrant F q p =
          (if fp_gt F (p_y p) (q_y q) then 1 else 0) * 2 + (if fp_gt F (p_x p) (q_x q) then 1 else 0)
         \<and> quadrant F q p < 4"
    by (simp add: quadrant_def)
  show "\<forall>(n :: real quadtree) p.
          (p_x p = q_x n \<longrightarrow> quadrant exact n p = (if p_y p > q_y n then 2 else 0))
        \<and> (p_y p = q_y n \<longrightarrow> quadrant exact n p = (if p_x p > q_x n then 1 else 0))"
    by (simp add: quadrant_def exact_def)
  show "\<forall>q' H0 H1. quadtree_refine F q H0 = Some (Inr (q', H1))
          \<longrightarrow> real (q_size q) > THRESH * real N * real N
          \<longrightarrow> (\<exists>cs'. q_child q' = Some cs' \<and>
                (\<forall>c<4. mset (tree_points (quad_nth cs' c))
                        = mset (filter (\<lambda>p. quadrant F q p = c) (stored q))))"
    using refine_children_points [OF _ _ assms(1)] by blast
qed

theorem quadrant_assignment_witness:
  "\<exists>q cs. insert_all (empty_leaf 1 1 1 1) scenario_points \<infinity> = Inr (q, \<infinity>)
     \<and> buffer_inv q
     \<and> sort_points exact q 0 (children_init exact q) \<infinity> = Inr (cs, \<infinity>)
     \<and> stored (quad_nth cs 0) = replicate 38 \<lparr>p_x = 0.8, p_y = 0.8\<rparr>
     \<and> stored (quad_nth cs 1) = replicate 38 \<lparr>p_x = 1.2, p_y = 0.8\<rparr>
     \<and> stored (quad_nth cs 2) = replicate 37 \<lparr>p_x = 0.8, p_y = 1.2\<rparr>
     \<and> stored (quad_nth cs 3) = replicate 37 \<lparr>p_x = 1.2, p_y = 1.2\<rparr>
     \<and> quadrant exact q \<lparr>p_x = 1, p_y = 1\<rparr> = 0
     \<and> quadrant exact q \<lparr>p_x = 1, p_y = 1.2\<rparr> = 2
     \<and> quadrant exact q \<lparr>p_x = 1.2, p_y = 1\<rparr> = 1"
proof -
  from scenario_root obtain q where
    ins: "insert_all (empty_leaf 1 1 1 1) scenario_points \<infinity> = Inr (q, \<infinity>)"
    and q: "buffer_inv q" "q_size q = 150" "stored q = scenario_points"
      "q_x q = 1" "q_y q = 1" "q_w q = 1" "q_h q = 1"
    by blast
  have "q_size q \<le> INT_MAX" by (simp add: q(2) INT_MAX_def)
  from sort_points_returns [OF q(1) children_init_inv this] obtain cs where
    sort: "sort_points exact q 0 (children_init exact q) \<infinity> = Inr (cs, \<infinity>)" by blast
  note t = quadrant_assignment [OF q(1) sort]
  note s = t [THEN conjunct1, rule_format]
  have "stored (quad_nth cs 0) = replicate 38 \<lparr>p_x = 0.8, p_y = 0.8\<rparr>"
    "stored (quad_nth cs 1) = replicate 38 \<lparr>p_x = 1.2, p_y = 0.8\<rparr>"
    "stored (quad_nth cs 2) = replicate 37 \<lparr>p_x = 0.8, p_y = 1.2\<rparr>"
    "stored (quad_nth cs 3) = replicate 37 \<lparr>p_x = 1.2, p_y = 1.2\<rparr>"
    using s [of 0] s [of 1] s [of 2] s [of 3]
    by (simp_all add: q(3-5) scenario_points_def quadrant_def exact_def filter_replicate_if)
  moreover have "quadrant exact q \<lparr>p_x = 1, p_y = 1\<rparr> = 0"
    "quadrant exact q \<lparr>p_x = 1, p_y = 1.2\<rparr> = 2"
    "quadrant exact q \<lparr>p_x = 1.2, p_y = 1\<rparr> = 1"
    by (simp_all add: q(4,5) quadrant_def exact_def)
  ultimately show ?thesis using ins q(1) sort by blast
qed

section \<open>Termination\<close>

lemma same_points_child:
  assumes sort: "sort_points F q 0 (children_init F q) H0 = Inr (cs, Ha)"
    and inv: "buffer_inv q" and same: "stored q = replicate (q_size q) p"
  shows "buffer_inv (quad_nth cs (quadrant F q p))"
    and "q_size (quad_nth cs (quadrant F q p)) = q_size q"
    and "stored (quad_nth cs (quadrant F q p)) = replicate (q_size q) p"
proof -
  have lt: "quadrant F q p < 4" by (rule quadrant_lt)
  note s = sorted_children [OF sort lt]
  show a: "buffer_inv (quad_nth cs (quadrant F q p))" by (rule s(1))
  from s(8) [OF inv] same
  show b: "stored (quad_nth cs (quadrant F q p)) = replicate (q_size q) p"
    by (simp add: filter_replicate_if)
  from length_stored [OF a] b show "q_size (quad_nth cs (quadrant F q p)) = q_size q" by simp
qed

lemma refine_same_points:
  assumes "quadtree_refine F q H = Some (Inr (q', H'))"
  shows "\<not> (buffer_inv q \<and> real (q_size q) > THRESH * real N * real N
             \<and> (\<exists>p. stored q = replicate (q_size q) p))"
  using assms
proof (induction rule: refine_induct)
  case (keep q H)
  then show ?case by simp
next
  case (split q H H0 cs Ha c0 H1 c1 H2 c2 H3 c3 H4)
  show ?case
  proof
    assume bad: "buffer_inv q \<and> real (q_size q) > THRESH * real N * real N
             \<and> (\<exists>p. stored q = replicate (q_size q) p)"
    then obtain p where same: "stored q = replicate (q_size q) p" by blast
    note c = same_points_child [OF split(3) bad [THEN conjunct1] same]
    have "buffer_inv (quad_nth cs (quadrant F q p))
        \<and> real (q_size (quad_nth cs (quadrant F q p))) > THRESH * real N * real N
        \<and> (\<exists>p'. stored (quad_nth cs (quadrant F q p))
               = replicate (q_size (quad_nth cs (quadrant F q p))) p')"
      using c bad by auto
    moreover from four_cases [OF quadrant_lt [of F q p]] split(4-7)
    have "\<not> (buffer_inv (quad_nth cs (quadrant F q p))
        \<and> real (q_size (quad_nth cs (quadrant F q p))) > THRESH * real N * real N
        \<and> (\<exists>p'. stored (quad_nth cs (quadrant F q p))
               = replicate (q_size (quad_nth cs (quadrant F q p))) p'))"
      by (elim disjE) simp_all
    ultimately show False by blast
  qed
qed

lemma bind_case_Some:
  assumes "(m \<bind> (\<lambda>r. case r of Inl e \<Rightarrow> Some (Inl e) | Inr (c, H) \<Rightarrow> g c H)) = Some y"
    and "\<And>r. m = Some r \<Longrightarrow> \<exists>c. r = Inr (c, H')"
  shows "\<exists>c. m = Some (Inr (c, H')) \<and> g c H' = Some y"
  using assms by (cases m) auto

lemma sorted_child_size:
  assumes sort: "sort_points F q 0 (children_init F q) H0 = Inr (cs, Ha)"
    and inv: "buffer_inv q" and "c < 4"
  shows "q_size (quad_nth cs c) \<le> q_size q"
proof -
  note s = sorted_children [OF sort assms(3)]
  have "q_size (quad_nth cs c) = length (filter (\<lambda>p. quadrant F q p = c) (stored q))"
    using length_stored [OF s(1)] s(8) [OF inv] by simp
  also have "\<dots> \<le> length (stored q)" by (rule length_filter_le)
  finally show ?thesis using length_stored [OF inv] by simp
qed

lemma refine_no_error:
  assumes "quadtree_refine F q \<infinity> = Some y" and "buffer_inv q" and "q_size q \<le> INT_MAX"
  shows "\<exists>q'. y = Inr (q', \<infinity>)"
proof -
  have "F' = F \<longrightarrow> H = \<infinity> \<longrightarrow> buffer_inv q \<longrightarrow> q_size q \<le> INT_MAX \<longrightarrow> (\<exists>q'. y = Inr (q', \<infinity>))"
    if "quadtree_refine F' q H = Some y" for F' y q H
    using that
  proof (induction F' q H y rule: quadtree_refine.raw_induct [rotated 1, consumes 1, case_names step])
    case (step f F' q H y)
    show ?case
    proof (intro impI)
      assume F: "F' = F" and H: "H = \<infinity>" and inv: "buffer_inv q" and max: "q_size q \<le> INT_MAX"
      show "\<exists>q'. y = Inr (q', \<infinity>)"
      proof (cases "real (q_size q) > THRESH * real N * real N")
        case False
        with step.hyps H show ?thesis by auto
      next
        case True
        have H0: "malloc H = Some \<infinity>" by (simp add: malloc_def H)
        from sort_points_returns [OF inv children_init_inv max] obtain cs where
          sort: "sort_points F q 0 (children_init F q) \<infinity> = Inr (cs, \<infinity>)" by blast
        note s = sorted_children(1) [OF sort] sorted_child_size [OF sort inv]
        have IH: "\<exists>c'. r = Inr (c', \<infinity>)" if "c < 4" "f F (quad_nth cs c) \<infinity> = Some r" for c r
          using step.IH [OF that(2)] s(1) [OF that(1)] s(2) [OF that(1)] max by simp
        have four: "(0::nat) < 4" "(1::nat) < 4" "(2::nat) < 4" "(3::nat) < 4" by simp_all
        from True step.hyps H0 sort have
          "(f F (quad_nth cs 0) \<infinity> \<bind> (\<lambda>r0. case r0 of Inl e \<Rightarrow> Some (Inl e) | Inr (c0, H1) \<Rightarrow>
             f F (quad_nth cs 1) H1 \<bind> (\<lambda>r1. case r1 of Inl e \<Rightarrow> Some (Inl e) | Inr (c1, H2) \<Rightarrow>
             f F (quad_nth cs 2) H2 \<bind> (\<lambda>r2. case r2 of Inl e \<Rightarrow> Some (Inl e) | Inr (c2, H3) \<Rightarrow>
             f F (quad_nth cs 3) H3 \<bind> (\<lambda>r3. case r3 of Inl e \<Rightarrow> Some (Inl e) | Inr (c3, H4) \<Rightarrow>
               Some (Inr (Quadtree (q_x q) (q_y q) (q_w q) (q_h q)
                                     (Some (Quad c0 c1 c2 c3)) 0 None, H4))))))) = Some y"
          by (simp only: F if_True option.case sum.case prod.case)
        from bind_case_Some [OF this IH [OF four(1)]] obtain c0 where
          "(f F (quad_nth cs 1) \<infinity> \<bind> (\<lambda>r1. case r1 of Inl e \<Rightarrow> Some (Inl e) | Inr (c1, H2) \<Rightarrow>
             f F (quad_nth cs 2) H2 \<bind> (\<lambda>r2. case r2 of Inl e \<Rightarrow> Some (Inl e) | Inr (c2, H3) \<Rightarrow>
             f F (quad_nth cs 3) H3 \<bind> (\<lambda>r3. case r3 of Inl e \<Rightarrow> Some (Inl e) | Inr (c3, H4) \<Rightarrow>
               Some (Inr (Quadtree (q_x q) (q_y q) (q_w q) (q_h q)
                                     (Some (Quad c0 c1 c2 c3)) 0 None, H4)))))) = Some y"
          by auto
        from bind_case_Some [OF this IH [OF four(2)]] obtain c1 where
          "(f F (quad_nth cs 2) \<infinity> \<bind> (\<lambda>r2. case r2 of Inl e \<Rightarrow> Some (Inl e) | Inr (c2, H3) \<Rightarrow>
             f F (quad_nth cs 3) H3 \<bind> (\<lambda>r3. case r3 of Inl e \<Rightarrow> Some (Inl e) | Inr (c3, H4) \<Rightarrow>
               Some (Inr (Quadtree (q_x q) (q_y q) (q_w q) (q_h q)
                                     (Some (Quad c0 c1 c2 c3)) 0 None, H4))))) = Some y"
          by auto
        from bind_case_Some [OF this IH [OF four(3)]] obtain c2 where
          "(f F (quad_nth cs 3) \<infinity> \<bind> (\<lambda>r3. case r3 of Inl e \<Rightarrow> Some (Inl e) | Inr (c3, H4) \<Rightarrow>
               Some (Inr (Quadtree (q_x q) (q_y q) (q_w q) (q_h q)
                                     (Some (Quad c0 c1 c2 c3)) 0 None, H4)))) = Some y"
          by auto
        from bind_case_Some [OF this IH [OF four(4)]] show ?thesis by auto
      qed
    qed
  qed
  from this [OF assms(1)] assms(2,3) show ?thesis by simp
qed

text \<open>
  Claim C2 (no termination on coincident points). Take a node whose buffer is in the
  state \<open>buffer_inv\<close> and holds more than \<open>THRESH*N*N\<close> points, all of them the same
  point \<open>p\<close> (and no more than \<open>INT_MAX\<close>, the range of the loop counter). With an
  allocator that never fails, \<^verbatim>\<open>quadtree_refine\<close> does not return: its value is \<open>None\<close>.
  With any allocator it never returns normally (it runs forever or exits on a failed
  allocation). The reason: each redistribution puts all the points into the one child
  \<open>quadrant p\<close>, whose count is the count of its parent, and nothing in lines 114-163
  bounds the depth. The witness is a root with 101 copies of one point.
\<close>

theorem refine_diverges:
  assumes "buffer_inv q" and "real (q_size q) > THRESH * real N * real N"
    and "stored q = replicate (q_size q) p" and "q_size q \<le> INT_MAX"
  shows "quadtree_refine F q \<infinity> = None
     \<and> (\<forall>H r. quadtree_refine F q H \<noteq> Some (Inr r))
     \<and> (\<forall>H0 cs Ha. sort_points F q 0 (children_init F q) H0 = Inr (cs, Ha) \<longrightarrow>
            q_size (quad_nth cs (quadrant F q p)) = q_size q
          \<and> stored (quad_nth cs (quadrant F q p)) = replicate (q_size q) p)"
proof -
  have never: "quadtree_refine F q H \<noteq> Some (Inr r)" for H r
  proof
    assume "quadtree_refine F q H = Some (Inr r)"
    then have "quadtree_refine F q H = Some (Inr (fst r, snd r))" by simp
    from refine_same_points [OF this] assms(1-3) show False by blast
  qed
  have "quadtree_refine F q \<infinity> = None"
  proof (cases "quadtree_refine F q \<infinity>")
    case (Some y)
    from refine_no_error [OF Some assms(1,4)] Some never show ?thesis by auto
  qed simp
  moreover have "\<forall>H0 cs Ha. sort_points F q 0 (children_init F q) H0 = Inr (cs, Ha) \<longrightarrow>
            q_size (quad_nth cs (quadrant F q p)) = q_size q
          \<and> stored (quad_nth cs (quadrant F q p)) = replicate (q_size q) p"
    using same_points_child(2,3) [OF _ assms(1,3)] by blast
  ultimately show ?thesis using never by blast
qed

theorem refine_diverges_witness:
  "\<exists>q. insert_all (empty_leaf 1 1 1 1) (replicate 101 \<lparr>p_x = 1.3, p_y = 0.6\<rparr>) \<infinity> = Inr (q, \<infinity>)
     \<and> q_child q = None \<and> q_size q = 101
     \<and> stored q = replicate 101 \<lparr>p_x = 1.3, p_y = 0.6\<rparr>
     \<and> quadtree_refine exact q \<infinity> = None"
proof -
  from insert_all_returns [where q = "empty_leaf (1::real) 1 1 1"
      and ps = "replicate 101 \<lparr>p_x = 1.3, p_y = 0.6\<rparr>", OF buffer_inv_empty_leaf]
  obtain q where
    ins: "insert_all (empty_leaf (1::real) 1 1 1) (replicate 101 \<lparr>p_x = 1.3, p_y = 0.6\<rparr>) \<infinity>
            = Inr (q, \<infinity>)"
    by blast
  note a = insert_all_leaf [OF ins]
  have size: "q_size q = 101" using a(4) by simp
  have big: "real (q_size q) > THRESH * real N * real N" by (simp add: size THRESH_def N_def)
  have same: "stored q = replicate (q_size q) \<lparr>p_x = 1.3, p_y = 0.6\<rparr>" using a(3) size by simp
  have max: "q_size q \<le> INT_MAX" by (simp add: size INT_MAX_def)
  from refine_diverges [OF a(1) big same max, of exact, THEN conjunct1] ins a(2,3) size
  show ?thesis by blast
qed

section \<open>The sampling loop\<close>

lemma roots_inv_nth:
  assumes "roots_inv F qs" and "n < length qs"
  shows "q_x (qs ! n) = fp_of_int F (int n mod WIDTH + 1)"
    and "q_y (qs ! n) = fp_of_int F (int n div WIDTH + 1)"
    and "q_w (qs ! n) = fp_of_int F 1" and "q_h (qs ! n) = fp_of_int F 1"
    and "q_child (qs ! n) = None" and "buffer_inv (qs ! n)"
  using assms by (simp_all add: roots_inv_def list_all_iff)

lemma roots_inv_init: "roots_inv F (main_roots F)"
  by (simp add: roots_inv_def main_roots_def list_all_iff root_init_def buffer_inv_fresh)

lemma roots_inv_update:
  assumes "roots_inv F qs" and "n < length qs" and "quadtree_add (qs ! n) p H = Inr (q', H')"
  shows "roots_inv F (qs[n := q'])"
proof -
  note r = roots_inv_nth [OF assms(1,2)]
  note a = quadtree_add_Inr [OF r(6) assms(3)]
  have "q_x (qs[n := q'] ! m) = fp_of_int F (int m mod WIDTH + 1)
      \<and> q_y (qs[n := q'] ! m) = fp_of_int F (int m div WIDTH + 1)
      \<and> q_w (qs[n := q'] ! m) = fp_of_int F 1 \<and> q_h (qs[n := q'] ! m) = fp_of_int F 1
      \<and> q_child (qs[n := q'] ! m) = None \<and> buffer_inv (qs[n := q'] ! m)"
    if "m < length qs" for m
  proof (cases "m = n")
    case True
    with r a assms(2) show ?thesis by simp
  next
    case False
    with roots_inv_nth [OF assms(1) that] show ?thesis by simp
  qed
  with assms(1) show ?thesis by (simp add: roots_inv_def list_all_iff)
qed

lemma main_insert_inv:
  assumes "roots_inv F qs" and "main_insert F p qs H = Inr (qs', H')"
  shows "roots_inv F qs'"
proof (cases "fp_lt F (p_x p) (fp_lit F 0.5)
        \<or> fp_ge F (p_x p) (fp_add F (fp_of_int F WIDTH) (fp_lit F 0.5))
        \<or> fp_lt F (p_y p) (fp_lit F 0.5)
        \<or> fp_ge F (p_y p) (fp_add F (fp_of_int F HEIGHT) (fp_lit F 0.5))")
  case True
  with assms show ?thesis by (simp add: main_insert_def)
next
  case False
  with assms(2) obtain i j q' where
    idx: "0 \<le> j * WIDTH + i" "nat (j * WIDTH + i) < length qs"
    and add: "quadtree_add (qs ! nat (j * WIDTH + i)) p H = Inr (q', H')"
    and qs': "qs' = qs[nat (j * WIDTH + i) := q']"
    by (auto simp: main_insert_def split: option.splits if_splits sum.splits prod.splits)
  from roots_inv_update [OF assms(1) idx(2) add] qs' show ?thesis by simp
qed

lemma exact_to_int:
  assumes "0 \<le> r" and "r < 20"
  shows "fp_to_int exact r = Some \<lfloor>r\<rfloor>"
proof -
  have "0 \<le> \<lfloor>r\<rfloor>" using assms(1) by simp
  moreover have "\<lfloor>r\<rfloor> < 20" using assms(2) by (simp add: floor_less_iff)
  ultimately show ?thesis using assms(1) by (simp add: exact_def)
qed

lemma main_insert_exact:
  assumes inv: "roots_inv exact qs"
    and x: "0.5 \<le> p_x p" "p_x p < real_of_int WIDTH + 0.5"
    and y: "0.5 \<le> p_y p" "p_y p < real_of_int HEIGHT + 0.5"
  defines "i \<equiv> \<lfloor>p_x p - 0.5\<rfloor>" and "j \<equiv> \<lfloor>p_y p - 0.5\<rfloor>"
  shows "0 \<le> i \<and> i < WIDTH \<and> 0 \<le> j \<and> j < HEIGHT"
    and "0 \<le> j * WIDTH + i \<and> j * WIDTH + i < WIDTH * HEIGHT \<and> nat (j * WIDTH + i) < length qs"
    and "main_insert exact p qs H =
           (case quadtree_add (qs ! nat (j * WIDTH + i)) p H of
              Inl e \<Rightarrow> Inl e
            | Inr (q', H') \<Rightarrow> Inr (qs[nat (j * WIDTH + i) := q'], H'))"
    and "q_x (qs ! nat (j * WIDTH + i)) = real_of_int (i + 1)
       \<and> q_y (qs ! nat (j * WIDTH + i)) = real_of_int (j + 1)
       \<and> q_w (qs ! nat (j * WIDTH + i)) = 1 \<and> q_h (qs ! nat (j * WIDTH + i)) = 1"
    and "real_of_int (i + 1) - 0.5 \<le> p_x p \<and> p_x p < real_of_int (i + 1) + 0.5
       \<and> real_of_int (j + 1) - 0.5 \<le> p_y p \<and> p_y p < real_of_int (j + 1) + 0.5"
proof -
  have rx: "0 \<le> p_x p - 0.5" "p_x p - 0.5 < 20" and ry: "0 \<le> p_y p - 0.5" "p_y p - 0.5 < 20"
    using x y by (simp_all add: WIDTH_def HEIGHT_def)
  have i: "0 \<le> i" "i < 20" using rx by (simp_all add: i_def floor_less_iff)
  have j: "0 \<le> j" "j < 20" using ry by (simp_all add: j_def floor_less_iff)
  show "0 \<le> i \<and> i < WIDTH \<and> 0 \<le> j \<and> j < HEIGHT"
    using i j by (simp add: WIDTH_def HEIGHT_def)
  have len: "length qs = 400" using inv by (simp add: roots_inv_def WIDTH_def HEIGHT_def)
  have idx: "0 \<le> j * 20 + i" "j * 20 + i < 400" using i j by simp_all
  then have n: "nat (j * 20 + i) < length qs" using len by simp
  show "0 \<le> j * WIDTH + i \<and> j * WIDTH + i < WIDTH * HEIGHT \<and> nat (j * WIDTH + i) < length qs"
    using idx n by (simp add: WIDTH_def HEIGHT_def)
  have check: "\<not> (fp_lt exact (p_x p) (fp_lit exact 0.5)
        \<or> fp_ge exact (p_x p) (fp_add exact (fp_of_int exact WIDTH) (fp_lit exact 0.5))
        \<or> fp_lt exact (p_y p) (fp_lit exact 0.5)
        \<or> fp_ge exact (p_y p) (fp_add exact (fp_of_int exact HEIGHT) (fp_lit exact 0.5)))"
    using x y by (simp add: exact_def)
  have conv: "fp_to_int exact (fp_sub exact (p_x p) (fp_lit exact 0.5)) = Some i"
    "fp_to_int exact (fp_sub exact (p_y p) (fp_lit exact 0.5)) = Some j"
    using exact_to_int [OF rx] exact_to_int [OF ry] by (simp_all add: i_def j_def exact_def)
  show "main_insert exact p qs H =
           (case quadtree_add (qs ! nat (j * WIDTH + i)) p H of
              Inl e \<Rightarrow> Inl e
            | Inr (q', H') \<Rightarrow> Inr (qs[nat (j * WIDTH + i) := q'], H'))"
    unfolding main_insert_def using check conv idx(1) n by (simp add: WIDTH_def)
  have md: "(j * 20 + i) mod 20 = i" "(j * 20 + i) div 20 = j" using i by simp_all
  note r = roots_inv_nth [OF inv n]
  show "q_x (qs ! nat (j * WIDTH + i)) = real_of_int (i + 1)
       \<and> q_y (qs ! nat (j * WIDTH + i)) = real_of_int (j + 1)
       \<and> q_w (qs ! nat (j * WIDTH + i)) = 1 \<and> q_h (qs ! nat (j * WIDTH + i)) = 1"
    using r(1-4) idx(1) md by (simp add: WIDTH_def exact_def)
  have "real_of_int i \<le> p_x p - 0.5" "p_x p - 0.5 < real_of_int i + 1"
    "real_of_int j \<le> p_y p - 0.5" "p_y p - 0.5 < real_of_int j + 1"
    unfolding i_def j_def by linarith+
  then show "real_of_int (i + 1) - 0.5 \<le> p_x p \<and> p_x p < real_of_int (i + 1) + 0.5
       \<and> real_of_int (j + 1) - 0.5 \<le> p_y p \<and> p_y p < real_of_int (j + 1) + 0.5"
    by simp
qed

text \<open>
  Claim C10 (containment in the driver). In exact arithmetic, while the array of roots
  is in the state \<open>roots_inv\<close> (it is after lines 222-232, and every insertion keeps
  it), take the point \<open>p\<close> that any lens makes of the grid point \<open>k\<close> of the pixel
  \<open>n\<close>. If \<open>0.5 \<le> p.x < WIDTH + 0.5\<close> and \<open>0.5 \<le> p.y < HEIGHT + 0.5\<close>, the loop body
  passes the range check and converts without undefined behaviour to
  \<open>i = \<lfloor>p.x - 0.5\<rfloor>\<close> and \<open>j = \<lfloor>p.y - 0.5\<rfloor>\<close>; the index \<open>j*WIDTH + i\<close> is within the
  array; the body is the call of \<^verbatim>\<open>quadtree_add\<close> on that root, which appends \<open>p\<close> to
  its buffer unless the allocation fails; and that root has the centre \<open>(i+1, j+1)\<close>
  and the extent \<open>(1, 1)\<close>, so \<open>centre.x - 0.5 \<le> p.x < centre.x + 0.5\<close> and likewise
  for \<open>y\<close>.
\<close>

lemma main_pixel_inv:
  assumes "main_pixel F lens n k qs H = Inr (qs', H')" and "roots_inv F qs"
  shows "roots_inv F qs'"
  using assms
proof (induction "N * N - k" arbitrary: k qs H)
  case 0
  then show ?case by (simp add: main_pixel.simps [of F lens n k])
next
  case (Suc m)
  then have k: "k < N * N" by simp
  with Suc.prems(1) obtain qs1 H1 where
    step: "main_sample F lens (int n) (int k) qs H = Inr (qs1, H1)"
    and rest: "main_pixel F lens n (k + 1) qs1 H1 = Inr (qs', H')"
    by (auto simp: main_pixel.simps [of F lens n k] split: sum.splits)
  from main_insert_inv [OF Suc.prems(2) step [unfolded main_sample_def]]
  have "roots_inv F qs1" .
  moreover have "m = N * N - (k + 1)" using Suc.hyps(2) by simp
  ultimately show ?case using Suc.hyps(1) rest by blast
qed

lemma main_fill_inv:
  assumes "main_fill F lens n qs H = Inr (qs', H')" and "roots_inv F qs"
  shows "roots_inv F qs'"
  using assms
proof (induction "nat (WIDTH * HEIGHT) - n" arbitrary: n qs H)
  case 0
  then have "\<not> int n < WIDTH * HEIGHT" by (simp add: WIDTH_def HEIGHT_def)
  with 0 show ?case by (simp add: main_fill.simps [of F lens n])
next
  case (Suc m)
  then have n: "int n < WIDTH * HEIGHT" by (simp add: WIDTH_def HEIGHT_def)
  with Suc.prems(1) obtain qs1 H1 where
    step: "main_pixel F lens n 0 qs H = Inr (qs1, H1)"
    and rest: "main_fill F lens (n + 1) qs1 H1 = Inr (qs', H')"
    by (auto simp: main_fill.simps [of F lens n] split: sum.splits)
  from main_pixel_inv [OF step Suc.prems(2)] have "roots_inv F qs1" .
  moreover have "m = nat (WIDTH * HEIGHT) - (n + 1)" using Suc.hyps(2) by simp
  ultimately show ?case using Suc.hyps(1) rest by blast
qed

theorem driver_containment:
  assumes inv: "roots_inv exact qs"
    and p: "p = lens (grid_point exact n k)"
    and x: "0.5 \<le> p_x p" "p_x p < real_of_int WIDTH + 0.5"
    and y: "0.5 \<le> p_y p" "p_y p < real_of_int HEIGHT + 0.5"
  shows "\<exists>i j. i = \<lfloor>p_x p - 0.5\<rfloor> \<and> j = \<lfloor>p_y p - 0.5\<rfloor>
     \<and> 0 \<le> j * WIDTH + i \<and> j * WIDTH + i < WIDTH * HEIGHT \<and> nat (j * WIDTH + i) < length qs
     \<and> main_sample exact lens n k qs H =
           (case quadtree_add (qs ! nat (j * WIDTH + i)) p H of
              Inl e \<Rightarrow> Inl e
            | Inr (q', H') \<Rightarrow> Inr (qs[nat (j * WIDTH + i) := q'], H'))
     \<and> (\<forall>qs' H'. main_sample exact lens n k qs H = Inr (qs', H') \<longrightarrow>
            roots_inv exact qs'
          \<and> stored (qs' ! nat (j * WIDTH + i)) = stored (qs ! nat (j * WIDTH + i)) @ [p])
     \<and> (H = \<infinity> \<longrightarrow> (\<exists>qs'. main_sample exact lens n k qs H = Inr (qs', \<infinity>)))
     \<and> q_x (qs ! nat (j * WIDTH + i)) = real_of_int (i + 1)
     \<and> q_y (qs ! nat (j * WIDTH + i)) = real_of_int (j + 1)
     \<and> q_w (qs ! nat (j * WIDTH + i)) = 1 \<and> q_h (qs ! nat (j * WIDTH + i)) = 1
     \<and> q_x (qs ! nat (j * WIDTH + i)) - 0.5 \<le> p_x p
     \<and> p_x p < q_x (qs ! nat (j * WIDTH + i)) + 0.5
     \<and> q_y (qs ! nat (j * WIDTH + i)) - 0.5 \<le> p_y p
     \<and> p_y p < q_y (qs ! nat (j * WIDTH + i)) + 0.5"
proof -
  define i where "i = \<lfloor>p_x p - 0.5\<rfloor>"
  define j where "j = \<lfloor>p_y p - 0.5\<rfloor>"
  note m = main_insert_exact [OF inv x y, folded i_def j_def]
  have ms: "main_sample exact lens n k qs H =
           (case quadtree_add (qs ! nat (j * WIDTH + i)) p H of
              Inl e \<Rightarrow> Inl e
            | Inr (q', H') \<Rightarrow> Inr (qs[nat (j * WIDTH + i) := q'], H'))"
    using m(3) [of H] by (simp add: main_sample_def p)
  have n: "nat (j * WIDTH + i) < length qs" using m(2) by simp
  have post: "roots_inv exact qs'
          \<and> stored (qs' ! nat (j * WIDTH + i)) = stored (qs ! nat (j * WIDTH + i)) @ [p]"
    if ret: "main_sample exact lens n k qs H = Inr (qs', H')" for qs' H'
  proof -
    from ret ms obtain q' where
      add: "quadtree_add (qs ! nat (j * WIDTH + i)) p H = Inr (q', H')"
      and qs': "qs' = qs[nat (j * WIDTH + i) := q']"
      by (auto split: sum.splits)
    from roots_inv_update [OF inv n add] qs' have "roots_inv exact qs'" by simp
    moreover from quadtree_add_Inr(2) [OF roots_inv_nth(6) [OF inv n] add]
    have "stored q' = stored (qs ! nat (j * WIDTH + i)) @ [p]" by (rule stored_append)
    ultimately show ?thesis using qs' n by simp
  qed
  have ret: "\<exists>qs'. main_sample exact lens n k qs H = Inr (qs', \<infinity>)" if "H = \<infinity>"
  proof -
    from quadtree_add_returns [OF roots_inv_nth(6) [OF inv n], of H p] that obtain q' H' where
      add: "quadtree_add (qs ! nat (j * WIDTH + i)) p H = Inr (q', H')" by auto
    from quadtree_add_Inr(5) [OF roots_inv_nth(6) [OF inv n] add] that have "H' = \<infinity>" by simp
    with ms add show ?thesis by simp
  qed
  show ?thesis
    using m(2,4,5) ms post ret i_def j_def by (intro exI [of _ i] exI [of _ j]) simp
qed

lemma main_roots_nth:
  "n < 400 \<Longrightarrow> main_roots F ! n = root_init F (int n)"
  by (simp add: main_roots_def WIDTH_def HEIGHT_def)

theorem driver_containment_witness:
  "roots_inv exact (main_roots exact)
   \<and> shift_lens (grid_point exact 0 0) = \<lparr>p_x = 3.75, p_y = 8.45\<rparr>
   \<and> q_x (main_roots exact ! 143) = 4 \<and> q_y (main_roots exact ! 143) = 8
   \<and> q_w (main_roots exact ! 143) = 1 \<and> q_h (main_roots exact ! 143) = 1
   \<and> (\<exists>q'. main_sample exact shift_lens 0 0 (main_roots exact) \<infinity>
              = Inr ((main_roots exact)[143 := q'], \<infinity>)
          \<and> stored q' = [\<lparr>p_x = 3.75, p_y = 8.45\<rparr>])"
proof -
  let ?p = "\<lparr>p_x = 3.75, p_y = 8.45 :: real\<rparr>"
  have p: "?p = shift_lens (grid_point exact 0 0)"
    by (simp add: shift_lens_def grid_point_def exact_def N_def WIDTH_def)
  have x: "0.5 \<le> p_x ?p" "p_x ?p < real_of_int WIDTH + 0.5"
    and y: "0.5 \<le> p_y ?p" "p_y ?p < real_of_int HEIGHT + 0.5"
    by (simp_all add: WIDTH_def HEIGHT_def)
  have i: "\<lfloor>p_x ?p - 0.5\<rfloor> = 3" and j: "\<lfloor>p_y ?p - 0.5\<rfloor> = 7" by simp_all
  have idx: "nat (7 * WIDTH + 3) = 143" by (simp add: WIDTH_def)
  from driver_containment [where lens = shift_lens and n = 0 and k = 0 and p = ?p
      and qs = "main_roots exact" and H = \<infinity>, OF roots_inv_init p x y]
  have ms0: "main_sample exact shift_lens 0 0 (main_roots exact) \<infinity> =
           (case quadtree_add (main_roots exact ! nat (7 * WIDTH + 3)) ?p \<infinity> of
              Inl e \<Rightarrow> Inl e
            | Inr (q', H') \<Rightarrow> Inr ((main_roots exact)[nat (7 * WIDTH + 3) := q'], H'))"
    and g: "q_x (main_roots exact ! 143) = 4" "q_y (main_roots exact ! 143) = 8"
      "q_w (main_roots exact ! 143) = 1" "q_h (main_roots exact ! 143) = 1"
    by (simp_all add: idx [symmetric])
  note ms = ms0 [unfolded idx]
  have root: "main_roots exact ! 143 = root_init exact 143"
    using main_roots_nth [of 143 exact] by simp
  have inv: "buffer_inv (main_roots exact ! 143)"
    unfolding root by (simp add: root_init_def buffer_inv_fresh)
  from quadtree_add_returns [OF inv, of \<infinity> ?p] obtain q' H' where
    add: "quadtree_add (main_roots exact ! 143) ?p \<infinity> = Inr (q', H')" by auto
  note a = quadtree_add_Inr [OF inv add]
  have "H' = \<infinity>" using a(5) by simp
  moreover have "stored (main_roots exact ! 143) = []"
    unfolding root by (simp add: root_init_def stored_def buffer_def)
  with stored_append [OF a(2)] have "stored q' = [?p]" by simp
  ultimately have "\<exists>q'. main_sample exact shift_lens 0 0 (main_roots exact) \<infinity>
              = Inr ((main_roots exact)[143 := q'], \<infinity>)
          \<and> stored q' = [?p]"
    using ms add by auto
  with roots_inv_init [of exact] p g show ?thesis by simp
qed

end
